theory Spec2Isabelle
  imports Complex_Main
begin

section \<open>Keys and the key index\<close>

text \<open>
  The cache is declared for keys of type \<open>string | number\<close>. The key index
  \<open>items\<close> is a plain object (\<open>this.items = {}\<close>), so a key is looked up under its
  property name: a string names itself, a number is named by the string JavaScript
  prints for it (\<open>Number::toString\<close>). A number is given here by that very string:
  \<open>Num ''1''\<close> is the number \<open>1\<close>, \<open>Num ''1.5''\<close> is \<open>1.5\<close>, \<open>Num ''1e+21''\<close> is
  \<open>10^21\<close>, \<open>Num ''NaN''\<close> is \<open>NaN\<close>. Numbers of different value print differently,
  but for \<open>0\<close> and \<open>-0\<close>, which \<open>===\<close> does not tell apart and which both print as
  \<open>0\<close>; so \<open>Num s = Num t\<close> exactly when the two are the same number, \<open>0\<close> and
  \<open>-0\<close> taken as one. Not every string is the print of a number; the statements
  below hold for all of them and so for those that are.
\<close>

datatype key = Str string | Num string

fun toPropertyKey :: "key \<Rightarrow> string" where
  "toPropertyKey (Str s) = s"
| "toPropertyKey (Num s) = s"

text \<open>
  A hole of \<open>new Array(capacity)\<close> reads as \<open>undefined\<close> (\<open>None\<close> below), whose
  property name is the word itself.
\<close>

fun propertyKeyOf :: "key option \<Rightarrow> string" where
  "propertyKeyOf None = ''undefined''"
| "propertyKeyOf (Some k) = toPropertyKey k"

text \<open>
  \<open>{}\<close> inherits from \<open>Object.prototype\<close>: reading \<open>items[key]\<close> or testing
  \<open>key in items\<close> finds the members below although the cache never stored them.
\<close>

definition Object_prototype :: "string list" where
  "Object_prototype =
     [''constructor'', ''hasOwnProperty'', ''isPrototypeOf'', ''propertyIsEnumerable'',
      ''toLocaleString'', ''toString'', ''valueOf'', ''__defineGetter__'',
      ''__defineSetter__'', ''__lookupGetter__'', ''__lookupSetter__'', ''__proto__'']"

datatype lookup = Absent | Slot nat | Inherited

text \<open>\<open>this.items[key]\<close>: an own property holds a slot; \<open>Absent\<close> is \<open>undefined\<close>.\<close>

definition items_get :: "(string \<rightharpoonup> nat) \<Rightarrow> key \<Rightarrow> lookup" where
  "items_get its key =
     (case its (toPropertyKey key) of
        Some pointer \<Rightarrow> Slot pointer
      | None \<Rightarrow> if toPropertyKey key \<in> set Object_prototype then Inherited else Absent)"

section \<open>Numbers and the capacity argument\<close>

text \<open>
  The constructor receives any value. A finite number is a rational here (every finite
  double is one, and \<open>Math.floor\<close> and the comparisons of the constructor are exact on
  doubles). \<open>Other n\<close> is a value that is neither \<open>undefined\<close>, a boolean nor a number
  (\<open>null\<close>, a string, an object), given with the number \<open>ToNumber\<close> converts it to.
  A bigint or a symbol, on which \<open>isFinite\<close> itself throws a \<open>TypeError\<close>, is not
  modelled.
\<close>

datatype number = NaN | PosInfinity | NegInfinity | Finite rat

datatype jsvalue = Undefined | Boolean bool | Number number | Other number

fun ToNumber :: "jsvalue \<Rightarrow> number" where
  "ToNumber Undefined = NaN"
| "ToNumber (Boolean b) = Finite (if b then 1 else 0)"
| "ToNumber (Number n) = n"
| "ToNumber (Other n) = n"

definition isFinite :: "jsvalue \<Rightarrow> bool" where
  "isFinite v = (case ToNumber v of Finite r \<Rightarrow> True | _ \<Rightarrow> False)"

definition Math_floor :: "jsvalue \<Rightarrow> number" where
  "Math_floor v = (case ToNumber v of Finite r \<Rightarrow> Finite (of_int \<lfloor>r\<rfloor>) | n \<Rightarrow> n)"

text \<open>\<open>n !== v\<close> for a number \<open>n\<close>: values of different types always differ, and so does \<open>NaN\<close> from itself.\<close>

fun strict_neq :: "number \<Rightarrow> jsvalue \<Rightarrow> bool" where
  "strict_neq n (Number m) = (n = NaN \<or> n \<noteq> m)"
| "strict_neq n v = True"

text \<open>\<open>v <= 0\<close>.\<close>

definition le_zero :: "jsvalue \<Rightarrow> bool" where
  "le_zero v = (case ToNumber v of Finite r \<Rightarrow> r \<le> 0 | NegInfinity \<Rightarrow> True | _ \<Rightarrow> False)"

text \<open>
  \<open>a || b\<close> on optional numbers (\<open>None\<close> is \<open>undefined\<close>): \<open>undefined\<close>, \<open>0\<close> and
  \<open>NaN\<close> are falsy.
\<close>

fun truthy_number :: "number option \<Rightarrow> bool" where
  "truthy_number None = False"
| "truthy_number (Some NaN) = False"
| "truthy_number (Some (Finite r)) = (r \<noteq> 0)"
| "truthy_number (Some n) = True"

definition or_else :: "number option \<Rightarrow> number option \<Rightarrow> number option" where
  "or_else a b = (if truthy_number a then a else b)"

section \<open>The slot-width selector (get-pointer-array.ts)\<close>

datatype width = Uint8Array | Uint16Array | Uint32Array

fun bits :: "width \<Rightarrow> nat" where
  "bits Uint8Array = 8"
| "bits Uint16Array = 16"
| "bits Uint32Array = 32"

text \<open>
  The source throws plain \<open>Error\<close> objects, told apart by their messages:
  \<open>InvalidCapacity\<close> is "Capacity should be a finite positive integer.",
  \<open>CapacityUnsupported\<close> is "mnemonist: Pointer Array of size > 4294967295 is not
  supported.". \<open>RangeError\<close> is what \<open>new Array(n)\<close> throws for a length above
  \<open>2^32 - 1\<close>.
\<close>

datatype error = InvalidCapacity | CapacityUnsupported | RangeError

definition MAX_8BIT_INTEGER :: int where
  "MAX_8BIT_INTEGER = 2 ^ 8 - 1"

definition MAX_16BIT_INTEGER :: int where
  "MAX_16BIT_INTEGER = 2 ^ 16 - 1"

definition MAX_32BIT_INTEGER :: int where
  "MAX_32BIT_INTEGER = 2 ^ 32 - 1"

definition getPointerArray :: "int \<Rightarrow> error + width" where
  "getPointerArray n =
     (let maxIndex = n - 1 in
      if maxIndex \<le> MAX_8BIT_INTEGER then Inr Uint8Array
      else if maxIndex \<le> MAX_16BIT_INTEGER then Inr Uint16Array
      else if maxIndex \<le> MAX_32BIT_INTEGER then Inr Uint32Array
      else Inl CapacityUnsupported)"

text \<open>
  A typed array has a fixed length, starts filled with zeros, and keeps of a number
  stored in it the low bits of its element width. A store outside the array is
  ignored, as is \<open>xs[i := v]\<close> in HOL.
\<close>

definition ta_write :: "width \<Rightarrow> nat list \<Rightarrow> nat \<Rightarrow> nat \<Rightarrow> nat list" where
  "ta_write w xs i v = xs[i := v mod 2 ^ bits w]"

section \<open>The cache\<close>

datatype completion = Completes | Throws

type_synonym 'v handler = "key option \<Rightarrow> 'v option \<Rightarrow> completion"

text \<open>
  The fields of the class, and \<open>emitted\<close>, a history of the calls
  \<open>this.events.emit("evicted", key, value)\<close> made so far. \<open>events\<close> holds the
  callbacks subscribed with \<open>on\<close>, in subscription order; a callback is given by
  whether it throws on the arguments it receives. A callback that calls the cache
  itself, and unsubscribing, are not modelled.
\<close>

record 'v cache =
  capacity :: nat
  width :: width
  forward :: "nat list"
  backward :: "nat list"
  K :: "key option list"
  V :: "'v option list"
  events :: "'v handler list"
  size_lru :: nat
  head :: nat
  tail :: nat
  items :: "string \<rightharpoonup> nat"
  emitted :: "(key option \<times> 'v option) list"

text \<open>
  How a call ends: it returns a result and leaves a state; or a callback threw and the
  exception reaches the caller, the object staying as it was at that moment; or
  \<open>items[key]\<close> found an inherited member of \<open>Object.prototype\<close> and the source goes
  on with that function object as the slot pointer (\<open>head\<close> becomes a non-number and
  the arrays receive non-index properties), which this model does not follow.
\<close>

datatype ('a, 's) outcome = Returned 'a 's | Raised 's | Stray

text \<open>
  The constructor: the test of the capacity, the choice of the array class, then the
  four arrays. \<open>new Array(capacity)\<close> throws a \<open>RangeError\<close> for a length above
  \<open>2^32 - 1\<close>, which the width selector still accepts at \<open>2^32\<close>. That an allocation
  may run out of memory is not modelled.
\<close>

definition new_LRUCache :: "jsvalue \<Rightarrow> error + 'v cache" where
  "new_LRUCache cap =
     (if \<not> isFinite cap \<or> strict_neq (Math_floor cap) cap \<or> le_zero cap
      then Inl InvalidCapacity
      else case cap of
        Number (Finite r) \<Rightarrow>
          (case getPointerArray \<lfloor>r\<rfloor> of
             Inl e \<Rightarrow> Inl e
           | Inr PointerArray \<Rightarrow>
               if MAX_32BIT_INTEGER < \<lfloor>r\<rfloor> then Inl RangeError
               else Inr \<lparr> capacity = nat \<lfloor>r\<rfloor>,
                          width = PointerArray,
                          forward = replicate (nat \<lfloor>r\<rfloor>) 0,
                          backward = replicate (nat \<lfloor>r\<rfloor>) 0,
                          K = replicate (nat \<lfloor>r\<rfloor>) None,
                          V = replicate (nat \<lfloor>r\<rfloor>) None,
                          events = [],
                          size_lru = 0,
                          head = 0,
                          tail = 0,
                          items = Map.empty,
                          emitted = [] \<rparr>)
      | _ \<Rightarrow> Inl InvalidCapacity)"

text \<open>
  Modelled from the spec: the event library (nanoevents) is not part of the
  repository. Delivery is synchronous, in subscription order, and a callback's
  exception is not caught, so the callbacks after it are not called.
\<close>

fun emit :: "'v handler list \<Rightarrow> key option \<Rightarrow> 'v option \<Rightarrow> completion" where
  "emit [] k v = Completes"
| "emit (cb # cbs) k v = (case cb k v of Throws \<Rightarrow> Throws | Completes \<Rightarrow> emit cbs k v)"

definition on_lru :: "'v handler \<Rightarrow> 'v cache \<Rightarrow> 'v cache" where
  "on_lru cb c = c\<lparr>events := events c @ [cb]\<rparr>"

definition clear :: "'v cache \<Rightarrow> 'v cache" where
  "clear c = c\<lparr>size_lru := 0, head := 0, tail := 0, items := Map.empty\<rparr>"

definition splayOnTop :: "nat \<Rightarrow> 'v cache \<Rightarrow> 'v cache" where
  "splayOnTop pointer c =
     (let oldHead = head c in
      if head c = pointer then c
      else
        let previous = backward c ! pointer;
            next = forward c ! pointer;
            c = (if tail c = pointer then c\<lparr>tail := previous\<rparr>
                 else c\<lparr>backward := ta_write (width c) (backward c) next previous\<rparr>);
            c = c\<lparr>forward := ta_write (width c) (forward c) previous next\<rparr>;
            c = c\<lparr>backward := ta_write (width c) (backward c) oldHead pointer\<rparr>;
            c = c\<lparr>head := pointer\<rparr>
        in c\<lparr>forward := ta_write (width c) (forward c) pointer oldHead\<rparr>)"

definition storeKeyValue :: "nat \<Rightarrow> key \<Rightarrow> 'v \<Rightarrow> 'v cache \<Rightarrow> 'v cache" where
  "storeKeyValue pointer key val c =
     (let c = c\<lparr>items := (items c)(toPropertyKey key \<mapsto> pointer)\<rparr>;
          c = c\<lparr>K := (K c)[pointer := Some key]\<rparr>;
          c = c\<lparr>V := (V c)[pointer := Some val]\<rparr>;
          c = c\<lparr>forward := ta_write (width c) (forward c) pointer (head c)\<rparr>;
          c = c\<lparr>backward := ta_write (width c) (backward c) (head c) pointer\<rparr>
      in c\<lparr>head := pointer\<rparr>)"

text \<open>
  The eviction branch shared by \<open>set\<close> and \<open>setpop\<close> up to the call of \<open>emit\<close>:
  the tail slot is taken, \<open>tail\<close> moves to its predecessor, the slot's key leaves the
  index, and the event is emitted.
\<close>

definition dropLast :: "'v cache \<Rightarrow> 'v cache" where
  "dropLast c =
     (let pointer = tail c;
          c = c\<lparr>tail := backward c ! pointer\<rparr>;
          c = c\<lparr>items := (items c)(propertyKeyOf (K c ! pointer) := None)\<rparr>
      in c\<lparr>emitted := emitted c @ [(K c ! pointer, V c ! pointer)]\<rparr>)"

definition set_lru :: "key \<Rightarrow> 'v \<Rightarrow> 'v cache \<Rightarrow> (unit, 'v cache) outcome" where
  "set_lru key val c =
     (case items_get (items c) key of
        Inherited \<Rightarrow> Stray
      | Slot pointer \<Rightarrow>
          (let c = splayOnTop pointer c
           in Returned () (c\<lparr>V := (V c)[pointer := Some val]\<rparr>))
      | Absent \<Rightarrow>
          if size_lru c < capacity c
          then Returned () (storeKeyValue (size_lru c) key val (c\<lparr>size_lru := size_lru c + 1\<rparr>))
          else
            (let pointer = tail c
             in case emit (events c) (K c ! pointer) (V c ! pointer) of
                  Throws \<Rightarrow> Raised (dropLast c)
                | Completes \<Rightarrow> Returned () (storeKeyValue pointer key val (dropLast c))))"

text \<open>
  The object \<open>setpop\<close> returns, or \<open>null\<close>: \<open>Popped evicted key value\<close> is
  \<open>{evicted, key, value}\<close>.
\<close>

datatype 'v popped = Null | Popped bool "key option" "'v option"

text \<open>
  \<open>if (oldKey)\<close>: \<open>undefined\<close>, the empty string and the numbers \<open>0\<close>, \<open>-0\<close> (both
  printed \<open>0\<close>) and \<open>NaN\<close> are falsy.
\<close>

fun truthy_key :: "key option \<Rightarrow> bool" where
  "truthy_key None = False"
| "truthy_key (Some (Str s)) = (s \<noteq> [])"
| "truthy_key (Some (Num s)) = (s \<noteq> ''0'' \<and> s \<noteq> ''NaN'')"

definition setpop :: "key \<Rightarrow> 'v \<Rightarrow> 'v cache \<Rightarrow> ('v popped, 'v cache) outcome" where
  "setpop key val c =
     (case items_get (items c) key of
        Inherited \<Rightarrow> Stray
      | Slot pointer \<Rightarrow>
          (let c = splayOnTop pointer c;
               oldValue = V c ! pointer
           in Returned (Popped False (Some key) oldValue) (c\<lparr>V := (V c)[pointer := Some val]\<rparr>))
      | Absent \<Rightarrow>
          if size_lru c < capacity c
          then Returned Null (storeKeyValue (size_lru c) key val (c\<lparr>size_lru := size_lru c + 1\<rparr>))
          else
            (let pointer = tail c;
                 oldValue = V c ! pointer;
                 oldKey = K c ! pointer
             in case emit (events c) (K c ! pointer) (V c ! pointer) of
                  Throws \<Rightarrow> Raised (dropLast c)
                | Completes \<Rightarrow>
                    Returned (if truthy_key oldKey then Popped True oldKey oldValue else Null)
                      (storeKeyValue pointer key val (dropLast c))))"

text \<open>\<open>key in this.items\<close>: own or inherited.\<close>

definition has :: "key \<Rightarrow> 'v cache \<Rightarrow> bool" where
  "has key c = (items_get (items c) key \<noteq> Absent)"

definition get :: "key \<Rightarrow> 'v cache \<Rightarrow> ('v option, 'v cache) outcome" where
  "get key c =
     (case items_get (items c) key of
        Absent \<Rightarrow> Returned None c
      | Inherited \<Rightarrow> Stray
      | Slot pointer \<Rightarrow> (let c = splayOnTop pointer c in Returned (V c ! pointer) c))"

definition peek :: "key \<Rightarrow> 'v cache \<Rightarrow> ('v option, 'v cache) outcome" where
  "peek key c =
     (case items_get (items c) key of
        Absent \<Rightarrow> Returned None c
      | Inherited \<Rightarrow> Stray
      | Slot pointer \<Rightarrow> Returned (V c ! pointer) c)"

section \<open>Iteration\<close>

text \<open>
  The three iterators share one loop: \<open>next()\<close> reads at \<open>pointer\<close>, counts, and
  follows \<open>forward\<close> only while entries remain. \<open>iterate\<close> lists the slots read by
  draining an iterator created with counter \<open>i\<close> and length \<open>l\<close>.
\<close>

function iterate :: "nat list \<Rightarrow> nat \<Rightarrow> nat \<Rightarrow> nat \<Rightarrow> nat list" where
  "iterate fwd pointer i l =
     (if l \<le> i then []
      else pointer # iterate fwd (if Suc i < l then fwd ! pointer else pointer) (Suc i) l)"
  by pat_completeness auto
termination
  by (relation "measure (\<lambda>(fwd, pointer, i, l). l - i)") auto

declare iterate.simps [simp del]

definition chain :: "'v cache \<Rightarrow> nat list" where
  "chain c = iterate (forward c) (head c) 0 (size_lru c)"

definition keys :: "'v cache \<Rightarrow> key option list" where
  "keys c = map (\<lambda>pointer. K c ! pointer) (chain c)"

definition values_lru :: "'v cache \<Rightarrow> 'v option list" where
  "values_lru c = map (\<lambda>pointer. V c ! pointer) (chain c)"

definition entries :: "'v cache \<Rightarrow> (key option \<times> 'v option) list" where
  "entries c = map (\<lambda>pointer. (K c ! pointer, V c ! pointer)) (chain c)"

section \<open>Bulk construction\<close>

text \<open>
  An iterable of pairs, with the \<open>size\<close> and \<open>length\<close> properties it may have
  (\<open>None\<close> where it has none).
\<close>

record 'v iterable =
  pairs :: "(key \<times> 'v) list"
  size_of :: "number option"
  length_of :: "number option"

fun set_all :: "(key \<times> 'v) list \<Rightarrow> 'v cache \<Rightarrow> (unit, 'v cache) outcome" where
  "set_all [] c = Returned () c"
| "set_all ((key, val) # rest) c =
     (case set_lru key val c of
        Returned u c' \<Rightarrow> set_all rest c'
      | Raised c' \<Rightarrow> Raised c'
      | Stray \<Rightarrow> Stray)"

text \<open>
  The default of the second parameter of \<open>from\<close>: \<open>iterable.size || iterable.length || 0\<close>.
\<close>

definition default_capacity :: "'v iterable \<Rightarrow> jsvalue" where
  "default_capacity iterable =
     (case or_else (or_else (size_of iterable) (length_of iterable)) (Some (Finite 0)) of
        Some n \<Rightarrow> Number n
      | None \<Rightarrow> Undefined)"

text \<open>
  The default of the second parameter applies when the argument is \<open>undefined\<close>.
\<close>

definition from_lru :: "'v iterable \<Rightarrow> jsvalue \<Rightarrow> error + (unit, 'v cache) outcome" where
  "from_lru iterable cap =
     (let cap = (case cap of Undefined \<Rightarrow> default_capacity iterable | v \<Rightarrow> v)
      in case new_LRUCache cap of
           Inl e \<Rightarrow> Inl e
         | Inr c \<Rightarrow> Inr (set_all (pairs iterable) c))"

section \<open>Sequences of calls\<close>

datatype 'v call =
    Set key 'v
  | Setpop key 'v
  | Get key
  | Peek key
  | Has key
  | Clear
  | Keys
  | Values
  | Entries
  | On "'v handler"

text \<open>The state a call leaves, its result dropped.\<close>

fun forget :: "('a, 's) outcome \<Rightarrow> (unit, 's) outcome" where
  "forget (Returned r s) = Returned () s"
| "forget (Raised s) = Raised s"
| "forget Stray = Stray"

fun perform :: "'v call \<Rightarrow> 'v cache \<Rightarrow> (unit, 'v cache) outcome" where
  "perform (Set k v) c = set_lru k v c"
| "perform (Setpop k v) c = forget (setpop k v c)"
| "perform (Get k) c = forget (get k c)"
| "perform (Peek k) c = forget (peek k c)"
| "perform (Has k) c = Returned () c"
| "perform Clear c = Returned () (clear c)"
| "perform Keys c = Returned () c"
| "perform Values c = Returned () c"
| "perform Entries c = Returned () c"
| "perform (On cb) c = Returned () (on_lru cb c)"

text \<open>What the caller gets from a call: the value it returns, if it returns.\<close>

fun answer :: "('a, 's) outcome \<Rightarrow> 'a option" where
  "answer (Returned r s) = Some r"
| "answer (Raised s) = None"
| "answer Stray = None"

text \<open>A sequence of calls runs until one of them does not return.\<close>

fun run :: "'v call list \<Rightarrow> 'v cache \<Rightarrow> (unit, 'v cache) outcome" where
  "run [] c = Returned () c"
| "run (x # xs) c =
     (case perform x c of
        Returned u c' \<Rightarrow> run xs c'
      | Raised c' \<Rightarrow> Raised c'
      | Stray \<Rightarrow> Stray)"

text \<open>
  A caller that catches the exception of a callback (\<open>try { cache.set(k, v) } catch {}\<close>)
  goes on with the cache in the state the failed call left.
\<close>

fun run_caught :: "'v call list \<Rightarrow> 'v cache \<Rightarrow> (unit, 'v cache) outcome" where
  "run_caught [] c = Returned () c"
| "run_caught (x # xs) c =
     (case perform x c of
        Returned u c' \<Rightarrow> run_caught xs c'
      | Raised c' \<Rightarrow> run_caught xs c'
      | Stray \<Rightarrow> Stray)"

section \<open>The round trip of bulk construction\<close>

text \<open>
  What the spec expects of \<open>from(pairs)\<close> followed by \<open>entries()\<close>. Of the pairs
  with the same key only the last survives; the surviving pairs are listed most
  recently inserted first, and the cache keeps as many of them as its capacity allows.
\<close>

fun surviving :: "(key \<times> 'v) list \<Rightarrow> (key \<times> 'v) list" where
  "surviving [] = []"
| "surviving ((k, v) # ps) = (if k \<in> fst ` set ps then surviving ps else (k, v) # surviving ps)"

definition round_trip :: "nat \<Rightarrow> (key \<times> 'v) list \<Rightarrow> (key option \<times> 'v option) list" where
  "round_trip cap ps = map (\<lambda>(k, v). (Some k, Some v)) (take cap (rev (surviving ps)))"

section \<open>Well-formed states\<close>

text \<open>
  \<open>linked f xs\<close>: in the array \<open>f\<close>, every element of \<open>xs\<close> but the last points to
  the element after it.
\<close>

fun linked :: "nat list \<Rightarrow> nat list \<Rightarrow> bool" where
  "linked f (x # y # ys) = (f ! x = y \<and> linked f (y # ys))"
| "linked f xs = True"

text \<open>
  The arrays have the capacity as their length, and every slot they or \<open>head\<close> and
  \<open>tail\<close> hold lies in them: no read of the source is out of range, and no store is
  cut by the element width.
\<close>

definition bounded :: "'v cache \<Rightarrow> bool" where
  "bounded c \<longleftrightarrow>
     0 < capacity c \<and> capacity c \<le> 2 ^ bits (width c)
   \<and> length (forward c) = capacity c \<and> length (backward c) = capacity c
   \<and> length (K c) = capacity c \<and> length (V c) = capacity c
   \<and> size_lru c \<le> capacity c \<and> head c < capacity c \<and> tail c < capacity c
   \<and> (\<forall>x \<in> set (forward c). x < capacity c)
   \<and> (\<forall>x \<in> set (backward c). x < capacity c)"

text \<open>
  \<open>holds c xs\<close>: the live slots of \<open>c\<close>, from \<open>head\<close> along \<open>forward\<close> to \<open>tail\<close>,
  are \<open>xs\<close>: the slots claimed so far, each once, linked in both directions.
\<close>

definition holds :: "'v cache \<Rightarrow> nat list \<Rightarrow> bool" where
  "holds c xs \<longleftrightarrow>
     length xs = size_lru c \<and> distinct xs \<and> set xs = {..<size_lru c}
   \<and> linked (forward c) xs \<and> linked (backward c) (rev xs)
   \<and> (xs \<noteq> [] \<longrightarrow> hd xs = head c \<and> last xs = tail c)
   \<and> (xs = [] \<longrightarrow> tail c = 0)"

text \<open>
  The key index and the live slots agree: a live slot stores a key and a value and the
  key's property name leads back to the slot; a property of the index names a live slot
  whose key prints as that name.
\<close>

definition indexed :: "'v cache \<Rightarrow> bool" where
  "indexed c \<longleftrightarrow>
     (\<forall>p < size_lru c. \<exists>k v. K c ! p = Some k \<and> V c ! p = Some v
          \<and> items c (toPropertyKey k) = Some p)
   \<and> (\<forall>n p. items c n = Some p \<longrightarrow>
          p < size_lru c \<and> n \<notin> set Object_prototype \<and> (\<exists>k. K c ! p = Some k \<and> toPropertyKey k = n))"

definition invar :: "'v cache \<Rightarrow> bool" where
  "invar c \<longleftrightarrow> bounded c \<and> holds c (chain c) \<and> indexed c"

section \<open>The chain of live slots\<close>

lemma linked_Cons: "linked f (x # xs) \<longleftrightarrow> (xs \<noteq> [] \<longrightarrow> f ! x = hd xs) \<and> linked f xs"
  by (cases xs) auto

lemma linked_append:
  "linked f (xs @ ys) \<longleftrightarrow>
     linked f xs \<and> linked f ys \<and> (xs \<noteq> [] \<and> ys \<noteq> [] \<longrightarrow> f ! last xs = hd ys)"
  by (induction f xs rule: linked.induct) (auto simp: linked_Cons)

lemma linked_update:
  "i \<notin> set (butlast xs) \<Longrightarrow> linked (f[i := v]) xs = linked f xs"
  by (induction f xs rule: linked.induct) auto

lemma iterate_Nil: "l \<le> i \<Longrightarrow> iterate f p i l = []"
  by (subst iterate.simps) simp

lemma iterate_Cons:
  "i < l \<Longrightarrow> iterate f p i l = p # iterate f (if Suc i < l then f ! p else p) (Suc i) l"
  by (subst iterate.simps) simp

lemma iterate_linked:
  "linked f (x # xs) \<Longrightarrow> iterate f x i (i + Suc (length xs)) = x # xs"
proof (induction xs arbitrary: x i)
  case Nil
  then show ?case by (simp add: iterate_Cons iterate_Nil)
next
  case (Cons y ys)
  from Cons.prems have "f ! x = y" "linked f (y # ys)" by simp_all
  from Cons.IH [OF this(2), of "Suc i"] this(1) show ?case by (simp add: iterate_Cons)
qed

lemma length_iterate: "length (iterate f p i l) = l - i"
proof (induction f p i l rule: iterate.induct)
  case (1 fwd pointer i l)
  show ?case
  proof (cases "l \<le> i")
    case True
    then show ?thesis by (simp add: iterate_Nil)
  next
    case False
    with 1 show ?thesis by (simp add: iterate_Cons)
  qed
qed

lemma linked_iterate: "linked f (iterate f p i l)"
proof (induction f p i l rule: iterate.induct)
  case (1 fwd pointer i l)
  show ?case
  proof (cases "l \<le> i")
    case True
    then show ?thesis by (simp add: iterate_Nil)
  next
    case False
    show ?thesis
    proof (cases "Suc i < l")
      case True
      with 1 False show ?thesis
        by (simp add: iterate_Cons [of i l] linked_Cons iterate_Cons [of "Suc i" l])
    next
      case no: False
      with False show ?thesis by (simp add: iterate_Cons [of i l] iterate_Nil)
    qed
  qed
qed

lemma hd_iterate: "i < l \<Longrightarrow> hd (iterate f p i l) = p"
  by (simp add: iterate_Cons)

lemma holds_chain:
  assumes "holds c xs"
  shows "chain c = xs"
proof (cases xs)
  case Nil
  with assms show ?thesis by (simp add: holds_def chain_def iterate_Nil)
next
  case (Cons x ys)
  with assms have "linked (forward c) (x # ys)" "head c = x" "size_lru c = Suc (length ys)"
    by (auto simp: holds_def)
  with iterate_linked [of "forward c" x ys 0] Cons show ?thesis
    by (simp add: chain_def)
qed

section \<open>The operations keep the chain and the index\<close>

lemma bounded_nth:
  assumes "bounded c" "p < capacity c"
  shows "forward c ! p < capacity c" "backward c ! p < capacity c"
  using assms by (auto simp: bounded_def)

lemma ta_write_bounded:
  assumes "bounded c" "v < capacity c"
  shows "ta_write (width c) xs i v = xs[i := v]"
proof -
  from assms have "v < 2 ^ bits (width c)" by (simp add: bounded_def)
  then show ?thesis by (simp add: ta_write_def)
qed

lemma splayOnTop_head: "head c = p \<Longrightarrow> splayOnTop p c = c"
  by (simp add: splayOnTop_def)

lemma splayOnTop_eq:
  assumes "bounded c" "p < capacity c" "head c \<noteq> p"
  shows "splayOnTop p c =
     c\<lparr>tail := (if tail c = p then backward c ! p else tail c),
       backward := (if tail c = p then backward c
                    else (backward c)[forward c ! p := backward c ! p])[head c := p],
       forward := (forward c)[backward c ! p := forward c ! p, p := head c],
       head := p\<rparr>"
proof -
  note b = bounded_nth [OF assms(1,2)]
  have h: "head c < capacity c" using assms(1) by (simp add: bounded_def)
  have w: "ta_write (width c) xs i v = xs[i := v]" if "v < capacity c" for xs i v
    using ta_write_bounded [OF assms(1) that] .
  show ?thesis
    using assms(3) by (simp add: splayOnTop_def Let_def w b h assms(2))
qed


lemma butlast_rev: "butlast (rev xs) = rev (tl xs)"
  by (cases xs) simp_all

lemma hd_notin_tl: "distinct xs \<Longrightarrow> hd xs \<notin> set (tl xs)"
  by (cases xs) simp_all

lemma last_notin_butlast: "distinct xs \<Longrightarrow> last xs \<notin> set (butlast xs)"
  by (induction xs) (auto dest: in_set_butlastD)

lemma linked_update_notin:
  "i \<notin> set xs \<Longrightarrow> linked (f[i := v]) xs = linked f xs"
  by (rule linked_update) (auto dest: in_set_butlastD)

lemma linked_rev_update_hd:
  "distinct xs \<Longrightarrow> linked (f[hd xs := v]) (rev xs) = linked f (rev xs)"
  by (rule linked_update) (simp add: butlast_rev hd_notin_tl)

lemma linked_update_last:
  "distinct xs \<Longrightarrow> linked (f[last xs := v]) xs = linked f xs"
  by (rule linked_update) (simp add: last_notin_butlast)

lemma splay_holds:
  assumes b: "bounded c" and h: "holds c xs" and p: "p \<in> set xs"
  shows "holds (splayOnTop p c) (p # remove1 p xs)"
proof (cases "head c = p")
  case True
  from p have "xs \<noteq> []" by auto
  with h True have "hd xs = p" by (simp add: holds_def)
  with \<open>xs \<noteq> []\<close> have "p # remove1 p xs = xs" by (cases xs) simp_all
  with True h show ?thesis by (simp add: splayOnTop_head)
next
  case False
  let ?f = "forward c" and ?b = "backward c"
  from p obtain us bs where xs: "xs = us @ p # bs" and pus: "p \<notin> set us"
    by (meson split_list_first)
  from h have len: "length xs = size_lru c" and dist: "distinct xs"
    and set: "set xs = {..<size_lru c}" and lf: "linked ?f xs" and lb: "linked ?b (rev xs)"
    and hl: "xs \<noteq> [] \<longrightarrow> hd xs = head c \<and> last xs = tail c"
    by (simp_all add: holds_def)
  from hl xs have hd: "hd xs = head c" and last: "last xs = tail c" by simp_all
  from hd False xs have us: "us \<noteq> []" by (cases us) auto
  with hd xs have hus: "hd us = head c" by simp
  from set b have cap: "\<And>x. x \<in> set xs \<Longrightarrow> x < capacity c" by (auto simp: bounded_def)
  have pc: "p < capacity c" using cap xs by simp
  have lc: "last us < capacity c" using cap xs us by simp
  from b have lenf: "length ?f = capacity c" and lenb: "length ?b = capacity c"
    and hc: "head c < capacity c" by (simp_all add: bounded_def)
  from dist xs have d: "distinct us" "distinct bs" "p \<notin> set bs" "set us \<inter> set bs = {}"
    by auto
  from lf xs us have f1: "linked ?f us" and f2: "linked ?f bs" and f3: "?f ! last us = p"
    and f4: "bs \<noteq> [] \<longrightarrow> ?f ! p = hd bs"
    by (simp_all add: linked_append linked_Cons)
  from lb xs us have b1: "linked ?b (rev us)" and b2: "linked ?b (rev bs)"
    and b3: "?b ! p = last us" and b4: "bs \<noteq> [] \<longrightarrow> ?b ! hd bs = p"
    by (simp_all add: linked_append linked_Cons hd_rev last_rev)
  have tl: "tail c = p \<longleftrightarrow> bs = []"
  proof (cases "bs = []")
    case True
    with last xs show ?thesis by simp
  next
    case ne: False
    with last xs have "tail c = last bs" by simp
    with ne have "tail c \<in> set bs" by simp
    with d(3) ne show ?thesis by auto
  qed
  from last xs have tl': "bs \<noteq> [] \<Longrightarrow> tail c = last bs" by simp
  have lastus_in: "last us \<in> set us" using us by simp
  have hus_in: "head c \<in> set us" using us hus hd_in_set by metis
  have lastus: "last us \<noteq> p" using lastus_in pus by auto
  have lastus_bs: "last us \<notin> set bs" using lastus_in d(4) by auto
  have h_bs: "head c \<notin> set bs" using hus_in d(4) by auto
  have hdbs1: "hd bs \<noteq> head c" if "bs \<noteq> []"
    using that h_bs hd_in_set by metis
  have hdbs2: "hd bs \<notin> set us" if "bs \<noteq> []"
    using that d(4) hd_in_set by (metis disjoint_iff)
  have hdbs3: "hd bs < capacity c" if "bs \<noteq> []"
    using that cap xs by simp
  define f' where "f' = ?f[last us := ?f ! p, p := head c]"
  define b' where "b' = (if tail c = p then ?b else ?b[?f ! p := ?b ! p])[head c := p]"
  have eq: "splayOnTop p c = c\<lparr>tail := (if tail c = p then ?b ! p else tail c),
       backward := b', forward := f', head := p\<rparr>"
    using splayOnTop_eq [OF b pc False] by (simp add: f'_def b'_def b3)
  have g1: "linked f' us"
    unfolding f'_def using pus d(1) f1
    by (simp add: linked_update_notin linked_update_last)
  have g2: "linked f' bs"
    unfolding f'_def using d(3) lastus_bs f2
    by (simp add: linked_update_notin)
  have g3: "f' ! p = head c" unfolding f'_def using pc lenf by simp
  have g4: "bs \<noteq> [] \<Longrightarrow> f' ! last us = hd bs"
    unfolding f'_def using lastus lc lenf f4 by simp
  have lf': "linked f' (p # us @ bs)"
    using g1 g2 g3 g4 us hus by (simp add: linked_Cons linked_append)
  have b'_Nil: "b' = ?b[head c := p]" if "bs = []"
    using that tl by (simp add: b'_def)
  have b'_Cons: "b' = ?b[hd bs := last us, head c := p]" if "bs \<noteq> []"
    using that tl f4 b3 by (simp add: b'_def)
  have c1: "linked b' (rev bs)"
  proof (cases "bs = []")
    case True then show ?thesis by simp
  next
    case ne: False
    have "linked (?b[hd bs := last us]) (rev bs)"
      using d(2) b2 by (simp add: linked_rev_update_hd)
    moreover have "head c \<notin> set (rev bs)" using h_bs by simp
    ultimately show ?thesis
      unfolding b'_Cons [OF ne] by (simp add: linked_update_notin)
  qed
  have c2: "linked b' (rev us)"
  proof -
    have 1: "linked (f[head c := p]) (rev us) = linked f (rev us)" for f
      using linked_rev_update_hd [OF d(1), of f p] hus by simp
    show ?thesis
    proof (cases "bs = []")
      case True
      with b1 show ?thesis by (simp add: b'_Nil 1)
    next
      case ne: False
      have "hd bs \<notin> set (rev us)" using hdbs2 [OF ne] by simp
      then have "linked (?b[hd bs := last us]) (rev us)"
        using b1 by (simp add: linked_update_notin)
      then show ?thesis by (simp add: b'_Cons [OF ne] 1)
    qed
  qed
  have c3: "b' ! head c = p" unfolding b'_def using hc lenb by simp
  have c4: "bs \<noteq> [] \<Longrightarrow> b' ! hd bs = last us"
    using hdbs1 hdbs3 lenb by (simp add: b'_Cons)
  have lb': "linked b' (rev (p # us @ bs))"
    using c1 c2 c3 c4 us hus by (simp add: linked_append linked_Cons hd_rev last_rev)
  have r: "remove1 p xs = us @ bs" using xs pus by (simp add: remove1_append)
  have t: "(if tail c = p then ?b ! p else tail c) = last (p # us @ bs)"
    using tl tl' b3 us by (cases "bs = []") simp_all
  have "holds (c\<lparr>tail := (if tail c = p then ?b ! p else tail c),
       backward := b', forward := f', head := p\<rparr>) (p # us @ bs)"
    unfolding holds_def t
  proof (intro conjI impI)
    show "length (p # us @ bs) = size_lru (c\<lparr>tail := last (p # us @ bs), backward := b', forward := f', head := p\<rparr>)"
      using len xs by simp
    show "distinct (p # us @ bs)" using dist xs by auto
    show "set (p # us @ bs) = {..<size_lru (c\<lparr>tail := last (p # us @ bs), backward := b', forward := f', head := p\<rparr>)}"
      using set xs by auto
    show "linked (forward (c\<lparr>tail := last (p # us @ bs), backward := b', forward := f', head := p\<rparr>)) (p # us @ bs)"
      using lf' by simp
    show "linked (backward (c\<lparr>tail := last (p # us @ bs), backward := b', forward := f', head := p\<rparr>)) (rev (p # us @ bs))"
      using lb' by simp
  qed simp_all
  with eq r show ?thesis by simp
qed


lemma splayOnTop_frame [simp]:
  "K (splayOnTop p c) = K c" "V (splayOnTop p c) = V c" "items (splayOnTop p c) = items c"
  "size_lru (splayOnTop p c) = size_lru c" "capacity (splayOnTop p c) = capacity c"
  "width (splayOnTop p c) = width c" "events (splayOnTop p c) = events c"
  "emitted (splayOnTop p c) = emitted c"
  by (simp_all add: splayOnTop_def Let_def)

lemma update_below:
  assumes "\<forall>x \<in> set xs. x < n" "v < n"
  shows "\<forall>x \<in> set (xs[i := v]). x < (n::nat)"
  using assms set_update_subset_insert [of xs i v] by auto

lemma splayOnTop_bounded:
  assumes "bounded c" "p < capacity c"
  shows "bounded (splayOnTop p c)"
proof (cases "head c = p")
  case True
  with assms show ?thesis by (simp add: splayOnTop_head)
next
  case False
  note n = bounded_nth [OF assms]
  from assms(1) have f: "\<forall>x \<in> set (forward c). x < capacity c"
    and b: "\<forall>x \<in> set (backward c). x < capacity c" and h: "head c < capacity c"
    by (simp_all add: bounded_def)
  have f': "\<forall>x \<in> set ((forward c)[backward c ! p := forward c ! p, p := head c]). x < capacity c"
    by (intro update_below f n h)
  have b': "\<forall>x \<in> set ((if tail c = p then backward c
              else (backward c)[forward c ! p := backward c ! p])[head c := p]). x < capacity c"
  proof (cases "tail c = p")
    case True
    then show ?thesis using update_below [OF b assms(2)] by simp
  next
    case False
    then show ?thesis
      using update_below [OF update_below [OF b n(2)] assms(2)] by simp
  qed
  show ?thesis
    unfolding splayOnTop_eq [OF assms False] using assms f' b' n
    by (simp add: bounded_def)
qed

lemma storeKeyValue_eq:
  assumes "bounded c" "p < capacity c"
  shows "storeKeyValue p k v c =
     c\<lparr>items := (items c)(toPropertyKey k \<mapsto> p), K := (K c)[p := Some k],
       V := (V c)[p := Some v], forward := (forward c)[p := head c],
       backward := (backward c)[head c := p], head := p\<rparr>"
proof -
  have h: "head c < capacity c" using assms(1) by (simp add: bounded_def)
  have w: "ta_write (width c) xs i v = xs[i := v]" if "v < capacity c" for xs i v
    using ta_write_bounded [OF assms(1) that] .
  show ?thesis by (simp add: storeKeyValue_def Let_def w h assms(2))
qed

lemma storeKeyValue_bounded:
  assumes "bounded c" "p < capacity c"
  shows "bounded (storeKeyValue p k v c)"
proof -
  from assms(1) have f: "\<forall>x \<in> set (forward c). x < capacity c"
    and b: "\<forall>x \<in> set (backward c). x < capacity c" and h: "head c < capacity c"
    by (simp_all add: bounded_def)
  have f': "\<forall>x \<in> set ((forward c)[p := head c]). x < capacity c"
    by (intro update_below f h)
  have b': "\<forall>x \<in> set ((backward c)[head c := p]). x < capacity c"
    by (intro update_below b assms(2))
  show ?thesis
    unfolding storeKeyValue_eq [OF assms] using assms f' b'
    by (simp add: bounded_def)
qed

lemma dropLast_bounded:
  assumes "bounded c"
  shows "bounded (dropLast c)"
proof -
  from assms have "tail c < capacity c" by (simp add: bounded_def)
  from bounded_nth(2) [OF assms this] assms show ?thesis
    by (simp add: dropLast_def Let_def bounded_def)
qed

lemma insert_holds:
  assumes b: "bounded c" and h: "holds c xs" and lt: "size_lru c < capacity c"
  shows "holds (storeKeyValue (size_lru c) k v (c\<lparr>size_lru := size_lru c + 1\<rparr>)) (size_lru c # xs)"
proof -
  let ?f = "forward c" and ?b = "backward c" and ?n = "size_lru c"
  let ?c = "c\<lparr>size_lru := size_lru c + 1\<rparr>"
  from h have len: "length xs = ?n" and dist: "distinct xs"
    and set: "set xs = {..<?n}" and lf: "linked ?f xs" and lb: "linked ?b (rev xs)"
    and hl: "xs \<noteq> [] \<longrightarrow> hd xs = head c \<and> last xs = tail c"
    and e: "xs = [] \<longrightarrow> tail c = 0"
    by (simp_all add: holds_def)
  from b have lenf: "length ?f = capacity c" and lenb: "length ?b = capacity c"
    and hc: "head c < capacity c" by (simp_all add: bounded_def)
  have b1: "bounded ?c" using b lt by (simp add: bounded_def)
  have nin: "?n \<notin> set xs" using set by simp
  have eq: "storeKeyValue ?n k v ?c =
     c\<lparr>size_lru := ?n + 1, items := (items c)(toPropertyKey k \<mapsto> ?n), K := (K c)[?n := Some k],
       V := (V c)[?n := Some v], forward := ?f[?n := head c],
       backward := ?b[head c := ?n], head := ?n\<rparr>"
    using storeKeyValue_eq [OF b1, of ?n k v] lt by simp
  have lf': "linked (?f[?n := head c]) (?n # xs)"
    using lf nin hl lt lenf by (simp add: linked_Cons linked_update_notin)
  have "linked (?b[head c := ?n]) (rev xs)"
  proof (cases "xs = []")
    case True then show ?thesis by simp
  next
    case False
    with hl have "hd xs = head c" by simp
    with linked_rev_update_hd [OF dist, of ?b ?n] lb show ?thesis by simp
  qed
  then have lb': "linked (?b[head c := ?n]) (rev (?n # xs))"
    using hl hc lenb by (simp add: linked_append hd_rev last_rev)
  have s': "set (?n # xs) = {..<?n + 1}" using set by (simp add: lessThan_Suc)
  have t: "last (?n # xs) = tail c"
    using hl e len by (cases "xs = []") simp_all
  show ?thesis
    unfolding eq holds_def
    using len dist nin lf' lb' s' t by simp
qed


lemma dropLast_frame [simp]:
  "K (dropLast c) = K c" "V (dropLast c) = V c" "forward (dropLast c) = forward c"
  "backward (dropLast c) = backward c" "head (dropLast c) = head c"
  "size_lru (dropLast c) = size_lru c" "capacity (dropLast c) = capacity c"
  "width (dropLast c) = width c" "events (dropLast c) = events c"
  "tail (dropLast c) = backward c ! tail c"
  "items (dropLast c) = (items c)(propertyKeyOf (K c ! tail c) := None)"
  "emitted (dropLast c) = emitted c @ [(K c ! tail c, V c ! tail c)]"
  by (simp_all add: dropLast_def Let_def)

lemma evict_holds:
  assumes b: "bounded c" and h: "holds c xs" and full: "size_lru c = capacity c"
  shows "holds (storeKeyValue (tail c) k v (dropLast c)) (tail c # butlast xs)"
proof -
  let ?f = "forward c" and ?b = "backward c" and ?t = "tail c"
  from h have len: "length xs = size_lru c" and dist: "distinct xs"
    and set: "set xs = {..<size_lru c}" and lf: "linked ?f xs" and lb: "linked ?b (rev xs)"
    and hl: "xs \<noteq> [] \<longrightarrow> hd xs = head c \<and> last xs = tail c"
    by (simp_all add: holds_def)
  from b have lenf: "length ?f = capacity c" and lenb: "length ?b = capacity c"
    and hc: "head c < capacity c" and tc: "?t < capacity c" and pos: "0 < capacity c"
    by (simp_all add: bounded_def)
  from len full pos have ne: "xs \<noteq> []" by auto
  define as where "as = butlast xs"
  from ne hl have hd: "hd xs = head c" and "last xs = ?t" by simp_all
  with ne have xs: "xs = as @ [?t]"
    unfolding as_def using append_butlast_last_id [of xs] by simp
  from dist xs have d: "distinct as" "?t \<notin> set as" by auto
  from lf xs have f1: "linked ?f as" by (simp add: linked_append)
  from lb xs have b1: "linked ?b (rev as)" and b2: "as \<noteq> [] \<longrightarrow> ?b ! ?t = last as"
    by (simp_all add: linked_Cons hd_rev)
  have hd_as: "as \<noteq> [] \<Longrightarrow> hd as = head c" using hd xs by simp
  have eq: "storeKeyValue ?t k v (dropLast c) =
     (dropLast c)\<lparr>items := (items (dropLast c))(toPropertyKey k \<mapsto> ?t), K := (K c)[?t := Some k],
       V := (V c)[?t := Some v], forward := ?f[?t := head c],
       backward := ?b[head c := ?t], head := ?t\<rparr>"
    using storeKeyValue_eq [OF dropLast_bounded [OF b], of ?t k v] tc by simp
  have lf': "linked (?f[?t := head c]) (?t # as)"
    using f1 d(2) hd_as tc lenf by (simp add: linked_Cons linked_update_notin)
  have "linked (?b[head c := ?t]) (rev as)"
  proof (cases "as = []")
    case True then show ?thesis by simp
  next
    case False
    with linked_rev_update_hd [OF d(1), of ?b ?t] b1 hd_as show ?thesis by simp
  qed
  then have lb': "linked (?b[head c := ?t]) (rev (?t # as))"
    using hd_as hc lenb by (simp add: linked_append hd_rev last_rev)
  have t: "last (?t # as) = ?b ! ?t"
  proof (cases "as = []")
    case True
    with xs len full have "capacity c = 1" by simp
    with tc bounded_nth(2) [OF b tc] True show ?thesis by simp
  next
    case False
    with b2 show ?thesis by simp
  qed
  have s': "set (?t # as) = {..<size_lru c}" using set xs by auto
  have l': "length (?t # as) = size_lru c" using len xs by simp
  show ?thesis
    unfolding eq holds_def as_def [symmetric]
    using l' d lf' lb' s' t by simp
qed


lemma items_get_Slot:
  "items_get its k = Slot p \<longleftrightarrow> its (toPropertyKey k) = Some p"
  by (simp add: items_get_def split: option.split)

lemma items_get_Absent:
  "items_get its k = Absent \<longleftrightarrow>
     its (toPropertyKey k) = None \<and> toPropertyKey k \<notin> set Object_prototype"
  by (simp add: items_get_def split: option.split)

lemma items_get_Inherited:
  "items_get its k = Inherited \<longleftrightarrow>
     its (toPropertyKey k) = None \<and> toPropertyKey k \<in> set Object_prototype"
  by (simp add: items_get_def split: option.split)

lemma indexedD1:
  assumes "indexed c" "p < size_lru c"
  obtains k v where "K c ! p = Some k" "V c ! p = Some v" "items c (toPropertyKey k) = Some p"
  using assms unfolding indexed_def by blast

lemma indexedD2:
  assumes "indexed c" "items c n = Some p"
  shows "p < size_lru c" "n \<notin> set Object_prototype"
    "\<exists>k. K c ! p = Some k \<and> toPropertyKey k = n"
  using assms unfolding indexed_def by blast+

lemma indexed_overwrite:
  assumes i: "indexed c" and p: "p < length (V c)"
    and K: "K c' = K c" and it: "items c' = items c" and sz: "size_lru c' = size_lru c"
    and V: "V c' = (V c)[p := Some v]"
  shows "indexed c'"
  unfolding indexed_def
proof (intro conjI allI impI)
  fix q assume "q < size_lru c'"
  then have q: "q < size_lru c" by (simp add: sz)
  from indexedD1 [OF i q] obtain k w where
    kw: "K c ! q = Some k" "V c ! q = Some w" "items c (toPropertyKey k) = Some q" .
  show "\<exists>k v. K c' ! q = Some k \<and> V c' ! q = Some v \<and> items c' (toPropertyKey k) = Some q"
    using kw p by (cases "q = p") (simp_all add: K it V)
next
  fix n q assume "items c' n = Some q"
  then have "items c n = Some q" by (simp add: it)
  from indexedD2 [OF i this]
  show "q < size_lru c'" "n \<notin> set Object_prototype" "\<exists>k. K c' ! q = Some k \<and> toPropertyKey k = n"
    by (simp_all add: sz K)
qed

lemma indexed_insert:
  assumes i: "indexed c" and a: "items_get (items c) k = Absent"
    and n: "size_lru c < length (K c)" "size_lru c < length (V c)"
    and K: "K c' = (K c)[size_lru c := Some k]" and V: "V c' = (V c)[size_lru c := Some v]"
    and it: "items c' = (items c)(toPropertyKey k \<mapsto> size_lru c)"
    and sz: "size_lru c' = size_lru c + 1"
  shows "indexed c'"
  unfolding indexed_def
proof (intro conjI allI impI)
  from a have none: "items c (toPropertyKey k) = None" and np: "toPropertyKey k \<notin> set Object_prototype"
    by (simp_all add: items_get_Absent)
  { fix q assume q': "q < size_lru c'"
    show "\<exists>k v. K c' ! q = Some k \<and> V c' ! q = Some v \<and> items c' (toPropertyKey k) = Some q"
    proof (cases "q = size_lru c")
      case True
      with n show ?thesis by (simp add: K V it)
    next
      case False
      with q' have q: "q < size_lru c" by (simp add: sz)
      from indexedD1 [OF i q] obtain kq w where
        kw: "K c ! q = Some kq" "V c ! q = Some w" "items c (toPropertyKey kq) = Some q" .
      with none have "toPropertyKey kq \<noteq> toPropertyKey k" by auto
      with kw False show ?thesis by (simp add: K V it)
    qed }
  { fix m q assume m: "items c' m = Some q"
    have "q < size_lru c' \<and> m \<notin> set Object_prototype \<and> (\<exists>k. K c' ! q = Some k \<and> toPropertyKey k = m)"
    proof (cases "m = toPropertyKey k")
      case True
      with m n np show ?thesis by (simp add: it K sz)
    next
      case False
      with m have "items c m = Some q" by (simp add: it)
      from indexedD2 [OF i this] show ?thesis by (auto simp: sz K)
    qed
    then show "q < size_lru c'" "m \<notin> set Object_prototype"
      "\<exists>k. K c' ! q = Some k \<and> toPropertyKey k = m" by simp_all }
qed

lemma indexed_evict:
  assumes i: "indexed c" and a: "items_get (items c) k = Absent"
    and t: "t < size_lru c" "t < length (K c)" "t < length (V c)"
    and K: "K c' = (K c)[t := Some k]" and V: "V c' = (V c)[t := Some v]"
    and it: "items c' = ((items c)(propertyKeyOf (K c ! t) := None))(toPropertyKey k \<mapsto> t)"
    and sz: "size_lru c' = size_lru c"
  shows "indexed c'"
  unfolding indexed_def
proof (intro conjI allI impI)
  from a have none: "items c (toPropertyKey k) = None" and np: "toPropertyKey k \<notin> set Object_prototype"
    by (simp_all add: items_get_Absent)
  from indexedD1 [OF i t(1)] obtain kt wt where
    kt: "K c ! t = Some kt" "V c ! t = Some wt" "items c (toPropertyKey kt) = Some t" .
  { fix q assume q': "q < size_lru c'"
    show "\<exists>k v. K c' ! q = Some k \<and> V c' ! q = Some v \<and> items c' (toPropertyKey k) = Some q"
    proof (cases "q = t")
      case True
      with t show ?thesis by (simp add: K V it)
    next
      case False
      from q' have q: "q < size_lru c" by (simp add: sz)
      from indexedD1 [OF i q] obtain kq w where
        kw: "K c ! q = Some kq" "V c ! q = Some w" "items c (toPropertyKey kq) = Some q" .
      with none have 1: "toPropertyKey kq \<noteq> toPropertyKey k" by auto
      from kw kt False have 2: "toPropertyKey kq \<noteq> toPropertyKey kt" by auto
      from kw False 1 2 show ?thesis by (simp add: K V it kt)
    qed }
  { fix m q assume m: "items c' m = Some q"
    have "q < size_lru c' \<and> m \<notin> set Object_prototype \<and> (\<exists>k. K c' ! q = Some k \<and> toPropertyKey k = m)"
    proof (cases "m = toPropertyKey k")
      case True
      with m t np show ?thesis by (simp add: it K sz)
    next
      case False
      with m have ne: "m \<noteq> toPropertyKey kt" and old: "items c m = Some q"
        by (auto simp: it kt split: if_splits)
      from indexedD2 [OF i old] obtain kq where
        q: "q < size_lru c" "m \<notin> set Object_prototype" "K c ! q = Some kq" "toPropertyKey kq = m"
        by blast
      with ne kt have "q \<noteq> t" by auto
      with q show ?thesis by (simp add: sz K)
    qed
    then show "q < size_lru c'" "m \<notin> set Object_prototype"
      "\<exists>k. K c' ! q = Some k \<and> toPropertyKey k = m" by simp_all }
qed

lemma storeKeyValue_frame [simp]:
  "K (storeKeyValue p k v c) = (K c)[p := Some k]"
  "V (storeKeyValue p k v c) = (V c)[p := Some v]"
  "items (storeKeyValue p k v c) = (items c)(toPropertyKey k \<mapsto> p)"
  "size_lru (storeKeyValue p k v c) = size_lru c" "capacity (storeKeyValue p k v c) = capacity c"
  "width (storeKeyValue p k v c) = width c" "events (storeKeyValue p k v c) = events c"
  "emitted (storeKeyValue p k v c) = emitted c" "head (storeKeyValue p k v c) = p"
  "tail (storeKeyValue p k v c) = tail c"
  by (simp_all add: storeKeyValue_def Let_def)

lemma holds_cong:
  assumes "forward c' = forward c" "backward c' = backward c" "head c' = head c"
    "tail c' = tail c" "size_lru c' = size_lru c"
  shows "holds c' xs = holds c xs"
  by (simp add: holds_def assms)

lemma bounded_cong:
  assumes "forward c' = forward c" "backward c' = backward c" "head c' = head c"
    "tail c' = tail c" "size_lru c' = size_lru c" "capacity c' = capacity c"
    "width c' = width c" "length (K c') = length (K c)" "length (V c') = length (V c)"
  shows "bounded c' = bounded c"
  by (simp add: bounded_def assms)

lemma indexed_cong:
  assumes "K c' = K c" "V c' = V c" "items c' = items c" "size_lru c' = size_lru c"
  shows "indexed c' = indexed c"
  by (simp add: indexed_def assms)

lemma invarD:
  assumes "invar c"
  shows "bounded c" "holds c (chain c)" "indexed c"
  using assms by (simp_all add: invar_def)

lemma invarI:
  assumes "bounded c" "holds c xs" "indexed c"
  shows "invar c \<and> chain c = xs"
  using assms holds_chain [OF assms(2)] by (simp add: invar_def)

lemma invar_chain:
  assumes "invar c"
  shows "length (chain c) = size_lru c" "distinct (chain c)" "set (chain c) = {..<size_lru c}"
  using invarD(2) [OF assms] by (simp_all add: holds_def)

lemma invar_slot:
  assumes "invar c" "items c (toPropertyKey k) = Some p"
  shows "p < size_lru c" "p < capacity c" "p \<in> set (chain c)"
proof -
  show 1: "p < size_lru c" using indexedD2(1) [OF invarD(3) [OF assms(1)] assms(2)] .
  with invarD(1) [OF assms(1)] show "p < capacity c" by (simp add: bounded_def)
  from 1 have "p \<in> {..<size_lru c}" by simp
  then show "p \<in> set (chain c)" by (simp only: invar_chain(3) [OF assms(1)])
qed

lemma splay_invar:
  assumes "invar c" "items c (toPropertyKey k) = Some p"
  shows "invar (splayOnTop p c)" "chain (splayOnTop p c) = p # remove1 p (chain c)"
proof -
  note s = invar_slot [OF assms] and d = invarD [OF assms(1)]
  have "bounded (splayOnTop p c)" by (rule splayOnTop_bounded [OF d(1) s(2)])
  moreover have "holds (splayOnTop p c) (p # remove1 p (chain c))"
    by (rule splay_holds [OF d(1,2) s(3)])
  moreover have "indexed (splayOnTop p c) = indexed c"
    by (rule indexed_cong) simp_all
  with d(3) have "indexed (splayOnTop p c)" by simp
  ultimately have "invar (splayOnTop p c) \<and> chain (splayOnTop p c) = p # remove1 p (chain c)"
    by (rule invarI)
  then show "invar (splayOnTop p c)" "chain (splayOnTop p c) = p # remove1 p (chain c)" by simp_all
qed

lemma overwrite_invar:
  fixes v :: 'v and c :: "'v cache"
  assumes "invar c" "items c (toPropertyKey k) = Some p"
  defines "c' \<equiv> (splayOnTop p c)\<lparr>V := (V (splayOnTop p c))[p := Some v]\<rparr>"
  shows "invar c'" "chain c' = p # remove1 p (chain c)"
proof -
  note s = invar_slot [OF assms(1,2)] and i = splay_invar [OF assms(1,2)]
  note d = invarD [OF i(1)]
  have "bounded c' = bounded (splayOnTop p c)"
    by (rule bounded_cong) (simp_all add: c'_def)
  with d(1) have "bounded c'" by simp
  moreover have "holds c' (p # remove1 p (chain c)) = holds (splayOnTop p c) (p # remove1 p (chain c))"
    by (rule holds_cong) (simp_all add: c'_def)
  with d(2) have "holds c' (p # remove1 p (chain c))" by (simp add: i(2))
  moreover have "indexed c'"
  proof (rule indexed_overwrite [OF d(3)])
    show "p < length (V (splayOnTop p c))" using s(2) d(1) by (simp add: bounded_def)
  qed (simp_all add: c'_def)
  ultimately have "invar c' \<and> chain c' = p # remove1 p (chain c)"
    by (rule invarI)
  then show "invar c'" "chain c' = p # remove1 p (chain c)" by simp_all
qed

lemma insert_invar:
  fixes v :: 'v and c :: "'v cache"
  assumes "invar c" "items_get (items c) k = Absent" "size_lru c < capacity c"
  defines "c' \<equiv> storeKeyValue (size_lru c) k v (c\<lparr>size_lru := size_lru c + 1\<rparr>)"
  shows "invar c'" "chain c' = size_lru c # chain c"
proof -
  note d = invarD [OF assms(1)]
  have b1: "bounded (c\<lparr>size_lru := size_lru c + 1\<rparr>)"
    using d(1) assms(3) by (simp add: bounded_def)
  have "bounded c'" unfolding c'_def
    by (rule storeKeyValue_bounded [OF b1]) (simp add: assms(3))
  moreover have "holds c' (size_lru c # chain c)" unfolding c'_def
    by (rule insert_holds [OF d(1,2) assms(3)])
  moreover have "indexed c'"
  proof (rule indexed_insert [OF d(3) assms(2)])
    show "size_lru c < length (K c)" "size_lru c < length (V c)"
      using d(1) assms(3) by (simp_all add: bounded_def)
  qed (simp_all add: c'_def)
  ultimately have "invar c' \<and> chain c' = size_lru c # chain c"
    by (rule invarI)
  then show "invar c'" "chain c' = size_lru c # chain c" by simp_all
qed

lemma invar_tail:
  assumes "invar c" "0 < size_lru c"
  shows "tail c < size_lru c" "tail c = last (chain c)" "head c = hd (chain c)" "chain c \<noteq> []"
proof -
  from invar_chain(1) [OF assms(1)] assms(2) show ne: "chain c \<noteq> []" by auto
  with invarD(2) [OF assms(1)] show t: "tail c = last (chain c)" and "head c = hd (chain c)"
    by (simp_all add: holds_def)
  from ne have "last (chain c) \<in> set (chain c)" by simp
  then have "last (chain c) \<in> {..<size_lru c}" by (simp only: invar_chain(3) [OF assms(1)])
  then show "tail c < size_lru c" by (simp add: t)
qed

lemma evict_invar:
  fixes v :: 'v and c :: "'v cache"
  assumes "invar c" "items_get (items c) k = Absent" "size_lru c = capacity c"
  defines "c' \<equiv> storeKeyValue (tail c) k v (dropLast c)"
  shows "invar c'" "chain c' = tail c # butlast (chain c)"
proof -
  note d = invarD [OF assms(1)]
  from d(1) have pos: "0 < size_lru c" and tc: "tail c < capacity c"
    by (simp_all add: bounded_def assms(3))
  note t = invar_tail [OF assms(1) pos]
  have "bounded c'" unfolding c'_def
    by (rule storeKeyValue_bounded [OF dropLast_bounded [OF d(1)]]) (simp add: tc)
  moreover have "holds c' (tail c # butlast (chain c))" unfolding c'_def
    by (rule evict_holds [OF d(1,2) assms(3)])
  moreover have "indexed c'"
  proof (rule indexed_evict [OF d(3) assms(2) t(1)])
    show "tail c < length (K c)" "tail c < length (V c)"
      using d(1) tc by (simp_all add: bounded_def)
  qed (simp_all add: c'_def)
  ultimately have "invar c' \<and> chain c' = tail c # butlast (chain c)"
    by (rule invarI)
  then show "invar c'" "chain c' = tail c # butlast (chain c)" by simp_all
qed

lemma clear_invar:
  assumes "invar c"
  shows "invar (clear c)" "chain (clear c) = []"
proof -
  have "bounded (clear c)" using invarD(1) [OF assms] by (simp add: bounded_def clear_def)
  moreover have "holds (clear c) []" by (simp add: holds_def clear_def)
  moreover have "indexed (clear c)" by (simp add: indexed_def clear_def)
  ultimately have "invar (clear c) \<and> chain (clear c) = []"
    by (rule invarI)
  then show "invar (clear c)" "chain (clear c) = []" by simp_all
qed

lemma on_invar:
  assumes "invar c"
  shows "invar (on_lru cb c)" "chain (on_lru cb c) = chain c"
proof -
  note d = invarD [OF assms]
  have "bounded (on_lru cb c) = bounded c"
    by (rule bounded_cong) (simp_all add: on_lru_def)
  with d(1) have "bounded (on_lru cb c)" by simp
  moreover have "holds (on_lru cb c) (chain c) = holds c (chain c)"
    by (rule holds_cong) (simp_all add: on_lru_def)
  with d(2) have "holds (on_lru cb c) (chain c)" by simp
  moreover have "indexed (on_lru cb c) = indexed c"
    by (rule indexed_cong) (simp_all add: on_lru_def)
  with d(3) have "indexed (on_lru cb c)" by simp
  ultimately have "invar (on_lru cb c) \<and> chain (on_lru cb c) = chain c"
    by (rule invarI)
  then show "invar (on_lru cb c)" "chain (on_lru cb c) = chain c" by simp_all
qed

section \<open>The slot-width selector\<close>

lemma getPointerArray_thresholds:
  "getPointerArray n =
     (if n - 1 \<le> 255 then Inr Uint8Array
      else if n - 1 \<le> 65535 then Inr Uint16Array
      else if n - 1 \<le> 4294967295 then Inr Uint32Array
      else Inl CapacityUnsupported)"
  by (simp add: getPointerArray_def MAX_8BIT_INTEGER_def MAX_16BIT_INTEGER_def
      MAX_32BIT_INTEGER_def)

lemma getPointerArray_fits:
  assumes "getPointerArray n = Inr w"
  shows "n \<le> 2 ^ bits w"
  using assms
  by (auto simp: getPointerArray_thresholds split: if_splits)

lemma getPointerArray_narrowest:
  assumes "getPointerArray n = Inr w" "bits w' < bits w"
  shows "2 ^ bits w' < n"
  using assms
  by (cases w'; cases w) (auto simp: getPointerArray_thresholds split: if_splits)

lemma ta_write_exact:
  assumes "int p < 2 ^ bits w"
  shows "ta_write w xs i p = xs[i := p]"
proof -
  have "p < 2 ^ bits w" using assms
    by (metis of_nat_less_iff of_nat_numeral of_nat_power)
  then show ?thesis by (simp add: ta_write_def)
qed

section \<open>The constructor\<close>

lemma Finite_int_iff: "of_int \<lfloor>r\<rfloor> = (r::rat) \<longleftrightarrow> r \<in> \<int>"
  by (metis Ints_of_int floor_of_int Ints_cases)

lemma invalid_capacity_iff:
  "(\<not> isFinite cap \<or> strict_neq (Math_floor cap) cap \<or> le_zero cap) \<longleftrightarrow>
   \<not> (\<exists>r. cap = Number (Finite r) \<and> r \<in> \<int> \<and> 0 < r)"
proof (cases cap)
  case (Number n)
  then show ?thesis
    by (cases n) (auto simp: isFinite_def Math_floor_def le_zero_def elim: Ints_cases)
qed (auto simp: isFinite_def Math_floor_def le_zero_def)



lemma positive_integer_iff:
  "(\<exists>r. cap = Number (Finite r) \<and> r \<in> \<int> \<and> 0 < r) \<longleftrightarrow>
   (\<exists>n::nat. 0 < n \<and> cap = Number (Finite (of_nat n)))"
proof
  assume "\<exists>r. cap = Number (Finite r) \<and> r \<in> \<int> \<and> 0 < r"
  then obtain r where r: "cap = Number (Finite r)" "r \<in> \<int>" "0 < r" by blast
  from r(2) obtain z :: int where z: "r = of_int z" by (rule Ints_cases)
  with r(3) have "0 < z" by simp
  then have "0 < nat z" "r = of_nat (nat z)" using z by simp_all
  with r(1) show "\<exists>n::nat. 0 < n \<and> cap = Number (Finite (of_nat n))" by blast
next
  assume "\<exists>n::nat. 0 < n \<and> cap = Number (Finite (of_nat n))"
  then obtain n :: nat where "0 < n" "cap = Number (Finite (of_nat n))" by blast
  then show "\<exists>r. cap = Number (Finite r) \<and> r \<in> \<int> \<and> 0 < r"
    by (intro exI [of _ "of_nat n"]) simp
qed

lemma new_LRUCache_invalid:
  assumes "\<not> (\<exists>n::nat. 0 < n \<and> cap = Number (Finite (of_nat n)))"
  shows "new_LRUCache cap = Inl InvalidCapacity"
proof -
  from assms have "\<not> isFinite cap \<or> strict_neq (Math_floor cap) cap \<or> le_zero cap"
    by (simp only: invalid_capacity_iff positive_integer_iff not_False_eq_True)
  then show ?thesis by (simp add: new_LRUCache_def)
qed

lemma new_LRUCache_valid:
  assumes "0 < n"
  shows "new_LRUCache (Number (Finite (of_nat n))) =
     (case getPointerArray (int n) of
        Inl e \<Rightarrow> Inl e
      | Inr w \<Rightarrow>
          if 4294967295 < n then Inl RangeError
          else Inr \<lparr> capacity = n, width = w, forward = replicate n 0,
                     backward = replicate n 0, K = replicate n None, V = replicate n None,
                     events = [], size_lru = 0, head = 0, tail = 0, items = Map.empty,
                     emitted = [] \<rparr>)"
proof -
  have "\<exists>m::nat. 0 < m \<and> Number (Finite (of_nat n)) = Number (Finite (of_nat m))"
    using assms by blast
  then have "\<not> (\<not> isFinite (Number (Finite (of_nat n)))
      \<or> strict_neq (Math_floor (Number (Finite (of_nat n)))) (Number (Finite (of_nat n)))
      \<or> le_zero (Number (Finite (of_nat n))))"
    by (simp only: invalid_capacity_iff positive_integer_iff not_not)
  then show ?thesis
    by (simp add: new_LRUCache_def MAX_32BIT_INTEGER_def split: sum.split)
qed

lemma chain_empty: "size_lru c = 0 \<Longrightarrow> chain c = []"
  by (simp add: chain_def iterate_Nil)

text \<open>
  Claim C6. Construction fails with the invalid-capacity error, and yields no cache,
  exactly when the argument is not a number that is a positive integer: \<open>undefined\<close>,
  booleans, values of any other type, \<open>NaN\<close>, the infinities, negative numbers, zero
  and fractions are all rejected. It succeeds exactly for the positive integers up to
  \<open>2^32 - 1\<close>, with an empty cache of that capacity.
\<close>

theorem C6_constructor:
  "((new_LRUCache cap :: error + 'v cache) = Inl InvalidCapacity
      \<longleftrightarrow> \<not> (\<exists>n::nat. 0 < n \<and> cap = Number (Finite (of_nat n))))
   \<and> ((\<exists>c :: 'v cache. new_LRUCache cap = Inr c)
      \<longleftrightarrow> (\<exists>n::nat. 0 < n \<and> n \<le> 4294967295 \<and> cap = Number (Finite (of_nat n))))
   \<and> (\<forall>c :: 'v cache. new_LRUCache cap = Inr c \<longrightarrow>
         cap = Number (Finite (of_nat (capacity c))) \<and> size_lru c = 0 \<and> entries c = [])"
proof (cases "\<exists>n::nat. 0 < n \<and> cap = Number (Finite (of_nat n))")
  case False
  then have "(new_LRUCache cap :: error + 'v cache) = Inl InvalidCapacity"
    by (rule new_LRUCache_invalid)
  with False show ?thesis by auto
next
  case True
  then obtain n :: nat where n: "0 < n" "cap = Number (Finite (of_nat n))" by blast
  have uniq: "m = n" if "cap = Number (Finite (of_nat m))" for m :: nat
    using that n(2) by simp
  have new: "(new_LRUCache cap :: error + 'v cache) =
     (case getPointerArray (int n) of
        Inl e \<Rightarrow> Inl e
      | Inr w \<Rightarrow>
          if 4294967295 < n then Inl RangeError
          else Inr \<lparr> capacity = n, width = w, forward = replicate n 0,
                     backward = replicate n 0, K = replicate n None, V = replicate n None,
                     events = [], size_lru = 0, head = 0, tail = 0, items = Map.empty,
                     emitted = [] \<rparr>)"
    unfolding n(2) by (rule new_LRUCache_valid [OF n(1)])
  show ?thesis
  proof (cases "n \<le> 4294967295")
    case le: True
    then have "int n - 1 \<le> 4294967295" by simp
    then have "\<exists>w. getPointerArray (int n) = Inr w"
      unfolding getPointerArray_thresholds by (simp del: of_nat_diff)
    then obtain w where "getPointerArray (int n) = Inr w" by blast
    with new le have eq: "(new_LRUCache cap :: error + 'v cache) =
        Inr \<lparr> capacity = n, width = w, forward = replicate n 0,
              backward = replicate n 0, K = replicate n None, V = replicate n None,
              events = [], size_lru = 0, head = 0, tail = 0, items = Map.empty,
              emitted = [] \<rparr>"
      by simp
    have 1: "(new_LRUCache cap :: error + 'v cache) \<noteq> Inl InvalidCapacity"
      by (simp add: eq)
    have 2: "\<exists>c :: 'v cache. new_LRUCache cap = Inr c"
      by (simp add: eq)
    have 3: "cap = Number (Finite (of_nat (capacity c))) \<and> size_lru c = 0 \<and> entries c = []"
      if "new_LRUCache cap = Inr c" for c :: "'v cache"
    proof -
      from that eq have c: "c = \<lparr> capacity = n, width = w, forward = replicate n 0,
              backward = replicate n 0, K = replicate n None, V = replicate n None,
              events = [], size_lru = 0, head = 0, tail = 0, items = Map.empty,
              emitted = [] \<rparr>" by simp
      then have "capacity c = n" "size_lru c = 0" by simp_all
      then show ?thesis using n(2) by (simp add: entries_def chain_empty)
    qed
    from 1 2 3 True n le show ?thesis by blast
  next
    case gt: False
    then have "\<not> int n - 1 \<le> 4294967295 \<or> 4294967295 < n" by simp
    then have "\<exists>e. (new_LRUCache cap :: error + 'v cache) = Inl e \<and> e \<noteq> InvalidCapacity"
      unfolding new getPointerArray_thresholds by (auto simp del: of_nat_diff)
    then obtain e where e: "(new_LRUCache cap :: error + 'v cache) = Inl e" "e \<noteq> InvalidCapacity"
      by blast
    have 1: "(new_LRUCache cap :: error + 'v cache) \<noteq> Inl InvalidCapacity"
      using e by simp
    have 2: "\<not> (\<exists>c :: 'v cache. new_LRUCache cap = Inr c)"
      using e by simp
    have 3: "\<not> (\<exists>m::nat. 0 < m \<and> m \<le> 4294967295 \<and> cap = Number (Finite (of_nat m)))"
      using gt uniq by blast
    from 1 2 3 True show ?thesis by blast
  qed
qed

lemma fraction_not_nat: "(101 / 100 :: rat) \<noteq> of_nat n"
proof
  assume "(101 / 100 :: rat) = of_nat n"
  then have "(101 / 100 :: rat) \<in> \<int>" by (metis Ints_of_nat)
  then have "of_int \<lfloor>101 / 100 :: rat\<rfloor> = (101 / 100 :: rat)"
    by (simp only: Finite_int_iff)
  moreover have "\<lfloor>101 / 100 :: rat\<rfloor> = 1" by (simp add: floor_eq_iff)
  ultimately show False by simp
qed

theorem C6_constructor_witness:
  "(new_LRUCache Undefined :: error + nat cache) = Inl InvalidCapacity
   \<and> (new_LRUCache (Other NaN) :: error + nat cache) = Inl InvalidCapacity
   \<and> (new_LRUCache (Other (Finite 3)) :: error + nat cache) = Inl InvalidCapacity
   \<and> (new_LRUCache (Number (Finite (- 1))) :: error + nat cache) = Inl InvalidCapacity
   \<and> (new_LRUCache (Number (Finite 0)) :: error + nat cache) = Inl InvalidCapacity
   \<and> (new_LRUCache (Number (Finite (101 / 100))) :: error + nat cache) = Inl InvalidCapacity
   \<and> (new_LRUCache (Number PosInfinity) :: error + nat cache) = Inl InvalidCapacity
   \<and> (new_LRUCache (Boolean True) :: error + nat cache) = Inl InvalidCapacity
   \<and> (\<exists>c :: nat cache. new_LRUCache (Number (Finite 3)) = Inr c \<and> capacity c = 3)"
proof -
  have 1: "(new_LRUCache Undefined :: error + nat cache) = Inl InvalidCapacity"
    using C6_constructor [of Undefined, where 'v = nat] by simp
  have 2: "(new_LRUCache (Other NaN) :: error + nat cache) = Inl InvalidCapacity"
    using C6_constructor [of "Other NaN", where 'v = nat] by simp
  have 3: "(new_LRUCache (Other (Finite 3)) :: error + nat cache) = Inl InvalidCapacity"
    using C6_constructor [of "Other (Finite 3)", where 'v = nat] by simp
  have "(- 1 :: rat) \<noteq> of_nat n" for n
    by (metis of_nat_0_le_iff not_one_le_zero neg_0_le_iff_le)
  then have 4: "(new_LRUCache (Number (Finite (- 1))) :: error + nat cache) = Inl InvalidCapacity"
    using C6_constructor [of "Number (Finite (- 1))", where 'v = nat] by simp
  have 5: "(new_LRUCache (Number (Finite 0)) :: error + nat cache) = Inl InvalidCapacity"
    using C6_constructor [of "Number (Finite 0)", where 'v = nat] by simp
  have 6: "(new_LRUCache (Number (Finite (101 / 100))) :: error + nat cache) = Inl InvalidCapacity"
    using C6_constructor [of "Number (Finite (101 / 100))", where 'v = nat] fraction_not_nat
    by simp
  have 7: "(new_LRUCache (Number PosInfinity) :: error + nat cache) = Inl InvalidCapacity"
    using C6_constructor [of "Number PosInfinity", where 'v = nat] by simp
  have 8: "(new_LRUCache (Boolean True) :: error + nat cache) = Inl InvalidCapacity"
    using C6_constructor [of "Boolean True", where 'v = nat] by simp
  have "\<exists>n::nat. 0 < n \<and> n \<le> 4294967295 \<and> Number (Finite 3) = Number (Finite (of_nat n))"
    by (intro exI [of _ 3]) simp
  with C6_constructor [of "Number (Finite 3)", where 'v = nat]
  obtain c :: "nat cache" where c: "new_LRUCache (Number (Finite 3)) = Inr c"
    by blast
  with C6_constructor [of "Number (Finite 3)", where 'v = nat]
  have "Number (Finite 3) = Number (Finite (of_nat (capacity c)))" by blast
  then have "capacity c = 3" by simp
  with c have 9: "\<exists>c :: nat cache. new_LRUCache (Number (Finite 3)) = Inr c \<and> capacity c = 3"
    by blast
  from 1 2 3 4 5 6 7 8 9 show ?thesis by blast
qed

section \<open>Every state a run of calls reaches is well-formed\<close>

lemma invar_full:
  assumes "invar c" "\<not> size_lru c < capacity c"
  shows "size_lru c = capacity c" "0 < size_lru c"
  using invarD(1) [OF assms(1)] assms(2) by (simp_all add: bounded_def)

lemma new_LRUCache_invar:
  fixes c :: "'v cache"
  assumes "new_LRUCache cap = Inr c"
  shows "invar c" "chain c = []" "events c = []" "emitted c = []" "size_lru c = 0"
proof -
  have "\<exists>n::nat. 0 < n \<and> cap = Number (Finite (of_nat n))"
  proof (rule ccontr)
    assume "\<not> (\<exists>n::nat. 0 < n \<and> cap = Number (Finite (of_nat n)))"
    then have "new_LRUCache cap = (Inl InvalidCapacity :: error + 'v cache)"
      by (rule new_LRUCache_invalid)
    with assms show False by simp
  qed
  then obtain n :: nat where n: "0 < n" "cap = Number (Finite (of_nat n))" by blast
  from assms new_LRUCache_valid [OF n(1), where 'a = 'v] n(2)
  obtain w where w: "getPointerArray (int n) = Inr w"
    and c: "c = \<lparr> capacity = n, width = w, forward = replicate n 0,
                     backward = replicate n 0, K = replicate n None, V = replicate n None,
                     events = [], size_lru = 0, head = 0, tail = 0, items = Map.empty,
                     emitted = [] \<rparr>"
    by (auto split: sum.splits if_splits)
  from getPointerArray_fits [OF w] have "n \<le> 2 ^ bits w"
    by (metis of_nat_le_iff of_nat_numeral of_nat_power)
  with n(1) have "bounded c" by (simp add: bounded_def c)
  moreover have "holds c []" by (simp add: holds_def c)
  moreover have "indexed c" by (simp add: indexed_def c)
  ultimately have "invar c \<and> chain c = []" by (rule invarI)
  then show "invar c" "chain c = []" by simp_all
  show "events c = []" "emitted c = []" "size_lru c = 0" by (simp_all add: c)
qed

lemma set_lru_Slot:
  "items c (toPropertyKey k) = Some p \<Longrightarrow>
   set_lru k v c = Returned () ((splayOnTop p c)\<lparr>V := (V (splayOnTop p c))[p := Some v]\<rparr>)"
  by (simp add: set_lru_def items_get_Slot [symmetric] Let_def)

lemma set_lru_insert:
  "items_get (items c) k = Absent \<Longrightarrow> size_lru c < capacity c \<Longrightarrow>
   set_lru k v c = Returned () (storeKeyValue (size_lru c) k v (c\<lparr>size_lru := size_lru c + 1\<rparr>))"
  by (simp add: set_lru_def)

lemma set_lru_evict:
  "items_get (items c) k = Absent \<Longrightarrow> \<not> size_lru c < capacity c \<Longrightarrow>
   emit (events c) (K c ! tail c) (V c ! tail c) = Completes \<Longrightarrow>
   set_lru k v c = Returned () (storeKeyValue (tail c) k v (dropLast c))"
  by (simp add: set_lru_def Let_def)

lemma set_lru_throw:
  "items_get (items c) k = Absent \<Longrightarrow> \<not> size_lru c < capacity c \<Longrightarrow>
   emit (events c) (K c ! tail c) (V c ! tail c) = Throws \<Longrightarrow>
   set_lru k v c = Raised (dropLast c)"
  by (simp add: set_lru_def Let_def)

lemma set_lru_Inherited:
  "items_get (items c) k = Inherited \<Longrightarrow> set_lru k v c = Stray"
  by (simp add: set_lru_def)

lemma setpop_Slot:
  "items c (toPropertyKey k) = Some p \<Longrightarrow>
   setpop k v c = Returned (Popped False (Some k) (V c ! p))
     ((splayOnTop p c)\<lparr>V := (V (splayOnTop p c))[p := Some v]\<rparr>)"
  by (simp add: setpop_def items_get_Slot [symmetric] Let_def)

lemma setpop_insert:
  "items_get (items c) k = Absent \<Longrightarrow> size_lru c < capacity c \<Longrightarrow>
   setpop k v c = Returned Null (storeKeyValue (size_lru c) k v (c\<lparr>size_lru := size_lru c + 1\<rparr>))"
  by (simp add: setpop_def)

lemma setpop_evict:
  "items_get (items c) k = Absent \<Longrightarrow> \<not> size_lru c < capacity c \<Longrightarrow>
   emit (events c) (K c ! tail c) (V c ! tail c) = Completes \<Longrightarrow>
   setpop k v c = Returned (if truthy_key (K c ! tail c)
                            then Popped True (K c ! tail c) (V c ! tail c) else Null)
                   (storeKeyValue (tail c) k v (dropLast c))"
  by (simp add: setpop_def Let_def)

lemma setpop_throw:
  "items_get (items c) k = Absent \<Longrightarrow> \<not> size_lru c < capacity c \<Longrightarrow>
   emit (events c) (K c ! tail c) (V c ! tail c) = Throws \<Longrightarrow>
   setpop k v c = Raised (dropLast c)"
  by (simp add: setpop_def Let_def)

lemma setpop_Inherited:
  "items_get (items c) k = Inherited \<Longrightarrow> setpop k v c = Stray"
  by (simp add: setpop_def)

text \<open>\<open>setpop\<close> changes the cache as \<open>set\<close> does.\<close>

lemma forget_setpop: "forget (setpop k v c) = set_lru k v c"
  by (simp add: setpop_def set_lru_def Let_def split: lookup.split completion.split)

lemma get_Slot:
  "items c (toPropertyKey k) = Some p \<Longrightarrow>
   get k c = Returned (V c ! p) (splayOnTop p c)"
  by (simp add: get_def items_get_Slot [symmetric] Let_def)

lemma emit_cases: "emit cbs k v = Completes \<or> emit cbs k v = Throws"
  by (cases "emit cbs k v") simp_all

lemma set_lru_invar:
  assumes "invar c" "set_lru k v c = Returned u c'"
  shows "invar c'"
proof (cases "items_get (items c) k")
  case Absent
  show ?thesis
  proof (cases "size_lru c < capacity c")
    case True
    from assms(2) insert_invar(1) [OF assms(1) Absent True, of v] show ?thesis
      by (simp add: set_lru_insert [OF Absent True])
  next
    case False
    from assms(2) False Absent have e: "emit (events c) (K c ! tail c) (V c ! tail c) = Completes"
      using emit_cases [of "events c" "K c ! tail c" "V c ! tail c"]
      by (auto simp: set_lru_throw)
    from assms(2) evict_invar(1) [OF assms(1) Absent invar_full(1) [OF assms(1) False], of v]
    show ?thesis by (simp add: set_lru_evict [OF Absent False e])
  qed
next
  case (Slot p)
  then have p: "items c (toPropertyKey k) = Some p" by (simp add: items_get_Slot)
  from assms(2) overwrite_invar(1) [OF assms(1) p, of v] show ?thesis
    by (simp add: set_lru_Slot [OF p])
next
  case Inherited
  with assms(2) show ?thesis by (simp add: set_lru_Inherited)
qed

lemma get_invar:
  assumes "invar c" "get k c = Returned r c'"
  shows "invar c'"
proof (cases "items_get (items c) k")
  case (Slot p)
  then have p: "items c (toPropertyKey k) = Some p" by (simp add: items_get_Slot)
  from assms(2) splay_invar(1) [OF assms(1) p] show ?thesis
    by (simp add: get_Slot [OF p])
qed (use assms in \<open>simp_all add: get_def\<close>)

lemma peek_same: "peek k c = Returned r c' \<Longrightarrow> c' = c"
  by (simp add: peek_def split: lookup.splits)

lemma forget_Returned: "forget x = Returned u s \<longleftrightarrow> (\<exists>r. x = Returned r s)"
  by (cases x) simp_all

lemma perform_invar:
  assumes "invar c" "perform x c = Returned u c'"
  shows "invar c'"
proof (cases x)
  case (Set k v)
  with assms show ?thesis by (simp add: set_lru_invar)
next
  case (Setpop k v)
  with assms show ?thesis by (simp add: forget_setpop set_lru_invar)
next
  case (Get k)
  with assms show ?thesis by (auto simp: forget_Returned get_invar)
next
  case (Peek k)
  with assms show ?thesis by (auto simp: forget_Returned dest: peek_same)
next
  case Clear
  with assms clear_invar(1) [of c] show ?thesis by auto
next
  case (On cb)
  with assms on_invar(1) [of c cb] show ?thesis by auto
qed (use assms in simp_all)

lemma run_invar:
  assumes "invar c" "run xs c = Returned u c'"
  shows "invar c'"
  using assms
proof (induction xs arbitrary: c)
  case Nil
  then show ?case by simp
next
  case (Cons x xs)
  from Cons.prems(2) obtain c1 where 1: "perform x c = Returned () c1" and 2: "run xs c1 = Returned u c'"
    by (auto split: outcome.splits)
  from Cons.IH [OF perform_invar [OF Cons.prems(1) 1] 2] show ?case .
qed

section \<open>What the iterators yield after each operation\<close>

lemma entries_nth:
  "entries c = map (\<lambda>p. (K c ! p, V c ! p)) (chain c)"
  by (simp add: entries_def)

lemma keys_entries: "keys c = map fst (entries c)"
  by (simp add: keys_def entries_def)

lemma values_entries: "values_lru c = map snd (entries c)"
  by (simp add: values_lru_def entries_def)

lemma length_entries: "length (entries c) = length (chain c)"
  by (simp add: entries_def)

text \<open>The keys stored at live slots differ from slot to slot.\<close>

lemma invar_key_inj:
  assumes "invar c" "p < size_lru c" "q < size_lru c" "K c ! p = K c ! q"
  shows "p = q"
proof -
  note i = invarD(3) [OF assms(1)]
  from indexedD1 [OF i assms(2)] obtain k v where
    p: "K c ! p = Some k" "items c (toPropertyKey k) = Some p" .
  from indexedD1 [OF i assms(3)] obtain k' v' where
    q: "K c ! q = Some k'" "items c (toPropertyKey k') = Some q" .
  from p q assms(4) show ?thesis by simp
qed

lemma invar_distinct_keys:
  assumes "invar c"
  shows "distinct (keys c)"
proof -
  have "inj_on (\<lambda>p. K c ! p) (set (chain c))"
    unfolding invar_chain(3) [OF assms]
    by (rule inj_onI) (auto dest: invar_key_inj [OF assms])
  with invar_chain(2) [OF assms] show ?thesis
    by (simp add: keys_def distinct_map)
qed

lemma entries_others:
  assumes "invar c" "p < size_lru c"
  shows "map (\<lambda>q. (K c ! q, V c ! q)) (remove1 p (chain c)) =
         filter (\<lambda>e. fst e \<noteq> K c ! p) (entries c)"
proof -
  have "remove1 p (chain c) = filter (\<lambda>q. q \<noteq> p) (chain c)"
    using invar_chain(2) [OF assms(1)]
    by (simp add: distinct_remove1_removeAll removeAll_filter_not_eq) (metis)
  moreover have "filter (\<lambda>q. q \<noteq> p) (chain c) = filter (\<lambda>q. K c ! q \<noteq> K c ! p) (chain c)"
  proof (rule filter_cong [OF refl])
    fix q assume "q \<in> set (chain c)"
    then have "q < size_lru c" by (simp add: invar_chain(3) [OF assms(1)])
    then show "(q \<noteq> p) = (K c ! q \<noteq> K c ! p)"
      using invar_key_inj [OF assms(1) _ assms(2), of q] by auto
  qed
  ultimately show ?thesis by (simp add: entries_def filter_map comp_def)
qed

lemma entries_overwrite:
  fixes v :: 'v and c :: "'v cache"
  assumes "invar c" "items c (toPropertyKey k) = Some p"
  defines "c' \<equiv> (splayOnTop p c)\<lparr>V := (V (splayOnTop p c))[p := Some v]\<rparr>"
  shows "entries c' = (K c ! p, Some v) # filter (\<lambda>e. fst e \<noteq> K c ! p) (entries c)"
proof -
  note s = invar_slot [OF assms(1,2)]
  have ch: "chain c' = p # remove1 p (chain c)"
    unfolding c'_def by (rule overwrite_invar(2) [OF assms(1,2)])
  have len: "p < length (V c)" using invarD(1) [OF assms(1)] s(2) by (simp add: bounded_def)
  have notin: "p \<notin> set (remove1 p (chain c))" using invar_chain(2) [OF assms(1)] by simp
  have "map (\<lambda>q. (K c' ! q, V c' ! q)) (remove1 p (chain c)) =
      map (\<lambda>q. (K c ! q, V c ! q)) (remove1 p (chain c))"
  proof (rule map_cong [OF refl])
    fix q assume "q \<in> set (remove1 p (chain c))"
    with notin have "q \<noteq> p" by auto
    then show "(K c' ! q, V c' ! q) = (K c ! q, V c ! q)" by (simp add: c'_def)
  qed
  then have "map (\<lambda>q. (K c' ! q, V c' ! q)) (remove1 p (chain c)) =
      filter (\<lambda>e. fst e \<noteq> K c ! p) (entries c)"
    by (simp only: entries_others [OF assms(1) s(1)])
  moreover have "K c' ! p = K c ! p" "V c' ! p = Some v" using len by (simp_all add: c'_def)
  ultimately show ?thesis by (simp add: entries_def [of c'] ch)
qed

lemma entries_splay:
  assumes "invar c" "items c (toPropertyKey k) = Some p"
  shows "entries (splayOnTop p c) =
     (K c ! p, V c ! p) # filter (\<lambda>e. fst e \<noteq> K c ! p) (entries c)"
  using splay_invar(2) [OF assms] entries_others [OF assms(1) invar_slot(1) [OF assms]]
  by (simp add: entries_def)

lemma entries_insert:
  fixes v :: 'v and c :: "'v cache"
  assumes "invar c" "items_get (items c) k = Absent" "size_lru c < capacity c"
  defines "c' \<equiv> storeKeyValue (size_lru c) k v (c\<lparr>size_lru := size_lru c + 1\<rparr>)"
  shows "entries c' = (Some k, Some v) # entries c"
proof -
  have ch: "chain c' = size_lru c # chain c"
    unfolding c'_def by (rule insert_invar(2) [OF assms(1,2,3)])
  have len: "size_lru c < length (K c)" "size_lru c < length (V c)"
    using invarD(1) [OF assms(1)] assms(3) by (simp_all add: bounded_def)
  have notin: "size_lru c \<notin> set (chain c)" by (simp add: invar_chain(3) [OF assms(1)])
  have "map (\<lambda>q. (K c' ! q, V c' ! q)) (chain c) = map (\<lambda>q. (K c ! q, V c ! q)) (chain c)"
  proof (rule map_cong [OF refl])
    fix q assume "q \<in> set (chain c)"
    with notin have "q \<noteq> size_lru c" by auto
    then show "(K c' ! q, V c' ! q) = (K c ! q, V c ! q)" by (simp add: c'_def)
  qed
  moreover have "K c' ! size_lru c = Some k" "V c' ! size_lru c = Some v"
    using len by (simp_all add: c'_def)
  ultimately show ?thesis by (simp add: entries_def [of c'] ch) (simp add: entries_def)
qed

lemma entries_evict:
  fixes v :: 'v and c :: "'v cache"
  assumes "invar c" "items_get (items c) k = Absent" "size_lru c = capacity c"
  defines "c' \<equiv> storeKeyValue (tail c) k v (dropLast c)"
  shows "entries c' = (Some k, Some v) # butlast (entries c)"
    and "last (entries c) = (K c ! tail c, V c ! tail c)" and "entries c \<noteq> []"
proof -
  from invarD(1) [OF assms(1)] have pos: "0 < size_lru c" and tc: "tail c < capacity c"
    by (simp_all add: bounded_def assms(3))
  note t = invar_tail [OF assms(1) pos]
  have ch: "chain c' = tail c # butlast (chain c)"
    unfolding c'_def by (rule evict_invar(2) [OF assms(1,2,3)])
  have len: "tail c < length (K c)" "tail c < length (V c)"
    using invarD(1) [OF assms(1)] tc by (simp_all add: bounded_def)
  have notin: "tail c \<notin> set (butlast (chain c))"
    unfolding t(2) using invar_chain(2) [OF assms(1)] by (rule last_notin_butlast)
  have "map (\<lambda>q. (K c' ! q, V c' ! q)) (butlast (chain c)) =
      map (\<lambda>q. (K c ! q, V c ! q)) (butlast (chain c))"
  proof (rule map_cong [OF refl])
    fix q assume "q \<in> set (butlast (chain c))"
    with notin have "q \<noteq> tail c" by auto
    then show "(K c' ! q, V c' ! q) = (K c ! q, V c ! q)" by (simp add: c'_def)
  qed
  moreover have "K c' ! tail c = Some k" "V c' ! tail c = Some v"
    using len by (simp_all add: c'_def)
  ultimately have "entries c' = (Some k, Some v) # map (\<lambda>q. (K c ! q, V c ! q)) (butlast (chain c))"
    by (simp only: entries_def [of c'] ch list.map)
  then show "entries c' = (Some k, Some v) # butlast (entries c)"
    by (simp add: entries_def map_butlast)
  show "last (entries c) = (K c ! tail c, V c ! tail c)"
    using t(4) by (simp add: entries_def last_map t(2))
  show "entries c \<noteq> []" using t(4) by (simp add: entries_def)
qed

section \<open>Eviction\<close>

lemma reachable_invar:
  assumes "new_LRUCache cap = Inr c0" "run calls c0 = Returned () c"
  shows "invar c"
  by (rule run_invar [OF new_LRUCache_invar(1) [OF assms(1)] assms(2)])

lemma has_iff: "has k c \<longleftrightarrow> items_get (items c) k \<noteq> Absent"
  by (simp add: has_def)

lemma evict_index:
  fixes v :: 'v and c :: "'v cache"
  assumes "invar c" "items_get (items c) k = Absent" "size_lru c = capacity c"
  defines "c' \<equiv> storeKeyValue (tail c) k v (dropLast c)"
  shows "has k c'" "\<exists>kt vt. K c ! tail c = Some kt \<and> V c ! tail c = Some vt \<and> \<not> has kt c'"
proof -
  show "has k c'" by (simp add: has_def c'_def items_get_def)
  from invarD(1) [OF assms(1)] have pos: "0 < size_lru c"
    by (simp add: bounded_def assms(3))
  note t = invar_tail [OF assms(1) pos] and i = invarD(3) [OF assms(1)]
  from indexedD1 [OF i t(1)] obtain kt vt where
    kt: "K c ! tail c = Some kt" "V c ! tail c = Some vt" "items c (toPropertyKey kt) = Some (tail c)" .
  from assms(2) have none: "items c (toPropertyKey k) = None" by (simp add: items_get_Absent)
  with kt(3) have ne: "toPropertyKey kt \<noteq> toPropertyKey k" by auto
  from indexedD2(2) [OF i kt(3)] have "toPropertyKey kt \<notin> set Object_prototype" .
  with ne have "\<not> has kt c'" by (simp add: has_def c'_def items_get_Absent kt(1))
  with kt(1,2) show "\<exists>kt vt. K c ! tail c = Some kt \<and> V c ! tail c = Some vt \<and> \<not> has kt c'"
    by blast
qed

text \<open>
  Eviction after calls that all returned. In a state reached from a fresh cache by calls
  that all returned, in which the cache is full, \<open>set\<close> with a key that \<open>has\<close> does
  not find (and callbacks that return) takes out exactly the entry at the tail, the last
  of \<open>entries()\<close>, emits one event with that entry's key and value, puts the new key
  at the head, and leaves the size at the capacity, which is at least 1. \<open>set\<close> emits
  nothing when it updates a key the index holds or when the cache has room.
\<close>

theorem eviction_when_calls_return:
  fixes c :: "'v cache"
  assumes "new_LRUCache cap = Inr c0" and "run calls c0 = Returned () c"
  shows "(size_lru c = capacity c \<and> \<not> has k c
            \<and> emit (events c) (K c ! tail c) (V c ! tail c) = Completes \<longrightarrow>
          (\<exists>c' kt vt. set_lru k v c = Returned () c'
              \<and> last (entries c) = (Some kt, Some vt)
              \<and> K c ! tail c = Some kt \<and> V c ! tail c = Some vt
              \<and> entries c' = (Some k, Some v) # butlast (entries c)
              \<and> \<not> has kt c' \<and> has k c'
              \<and> emitted c' = emitted c @ [(Some kt, Some vt)]
              \<and> size_lru c' = capacity c \<and> capacity c' = capacity c \<and> 1 \<le> capacity c))
       \<and> ((\<exists>p. items_get (items c) k = Slot p) \<or> (\<not> has k c \<and> size_lru c < capacity c) \<longrightarrow>
          (\<exists>c'. set_lru k v c = Returned () c' \<and> emitted c' = emitted c))"
proof (intro conjI impI)
  note inv = reachable_invar [OF assms]
  { assume a: "size_lru c = capacity c \<and> \<not> has k c
            \<and> emit (events c) (K c ! tail c) (V c ! tail c) = Completes"
    then have full: "size_lru c = capacity c" and nf: "\<not> size_lru c < capacity c"
      and ab: "items_get (items c) k = Absent"
      and e: "emit (events c) (K c ! tail c) (V c ! tail c) = Completes"
      by (simp_all add: has_def)
    let ?c' = "storeKeyValue (tail c) k v (dropLast c)"
    note s = set_lru_evict [OF ab nf e, of v]
    note en = entries_evict(1) [OF inv ab full, of v] entries_evict(2,3) [OF inv ab full]
    from evict_index [OF inv ab full, of v] obtain kt vt where
      kt: "K c ! tail c = Some kt" "V c ! tail c = Some vt" "\<not> has kt ?c'" and hk: "has k ?c'"
      by blast
    have "1 \<le> capacity c" using invarD(1) [OF inv] by (simp add: bounded_def)
    with s en kt hk full
    show "\<exists>c' kt vt. set_lru k v c = Returned () c'
              \<and> last (entries c) = (Some kt, Some vt)
              \<and> K c ! tail c = Some kt \<and> V c ! tail c = Some vt
              \<and> entries c' = (Some k, Some v) # butlast (entries c)
              \<and> \<not> has kt c' \<and> has k c'
              \<and> emitted c' = emitted c @ [(Some kt, Some vt)]
              \<and> size_lru c' = capacity c \<and> capacity c' = capacity c \<and> 1 \<le> capacity c"
      by (intro exI [of _ ?c'] exI [of _ kt] exI [of _ vt]) simp }
  { assume "(\<exists>p. items_get (items c) k = Slot p) \<or> (\<not> has k c \<and> size_lru c < capacity c)"
    then show "\<exists>c'. set_lru k v c = Returned () c' \<and> emitted c' = emitted c"
    proof
      assume "\<exists>p. items_get (items c) k = Slot p"
      then obtain p where "items c (toPropertyKey k) = Some p" by (auto simp: items_get_Slot)
      from set_lru_Slot [OF this, of v] show ?thesis by simp
    next
      assume "\<not> has k c \<and> size_lru c < capacity c"
      then have "items_get (items c) k = Absent" "size_lru c < capacity c"
        by (simp_all add: has_def)
      from set_lru_insert [OF this, of v] show ?thesis by simp
    qed }
qed


lemmas eval =
  set_lru_def setpop_def get_def peek_def has_def clear_def on_lru_def items_get_def
  splayOnTop_def storeKeyValue_def dropLast_def ta_write_def Let_def Object_prototype_def
  entries_def keys_def values_lru_def chain_def iterate_Cons iterate_Nil

lemma new_LRUCache_3:
  "new_LRUCache (Number (Finite 3)) =
     Inr \<lparr> capacity = 3, width = Uint8Array, forward = [0, 0, 0], backward = [0, 0, 0],
           K = [None, None, None], V = [None, None, None], events = [], size_lru = 0,
           head = 0, tail = 0, items = Map.empty, emitted = [] \<rparr>"
  by (simp add: new_LRUCache_def isFinite_def Math_floor_def le_zero_def
      getPointerArray_thresholds MAX_32BIT_INTEGER_def numeral_3_eq_3)

lemma new_LRUCache_2:
  "new_LRUCache (Number (Finite 2)) =
     Inr \<lparr> capacity = 2, width = Uint8Array, forward = [0, 0], backward = [0, 0],
           K = [None, None], V = [None, None], events = [], size_lru = 0,
           head = 0, tail = 0, items = Map.empty, emitted = [] \<rparr>"
  by (simp add: new_LRUCache_def isFinite_def Math_floor_def le_zero_def
      getPointerArray_thresholds MAX_32BIT_INTEGER_def numeral_2_eq_2)

text \<open>The scenario of the tests: capacity 3, then one, two and three are set.\<close>

lemma one_two_three:
  "\<exists>c. run [Set (Str ''one'') (1::nat), Set (Str ''two'') 2, Set (Str ''three'') 3]
       \<lparr> capacity = 3, width = Uint8Array, forward = [0, 0, 0], backward = [0, 0, 0],
           K = [None, None, None], V = [None, None, None], events = [], size_lru = 0,
           head = 0, tail = 0, items = Map.empty, emitted = [] \<rparr> = Returned () c
     \<and> size_lru c = capacity c \<and> capacity c = 3 \<and> events c = [] \<and> emitted c = []
     \<and> \<not> has (Str ''four'') c
     \<and> items_get (items c) (Str ''two'') = Slot 1
     \<and> items_get (items c) (Str ''one'') = Slot 0 \<and> V c ! 0 = Some 1 \<and> tail c = 0 \<and> V c ! 1 = Some 2
     \<and> entries c = [(Some (Str ''three''), Some 3), (Some (Str ''two''), Some 2),
                     (Some (Str ''one''), Some 1)]"
  by (simp add: eval)

theorem eviction_when_calls_return_witness:
  "\<exists>c0 c c' c''.
      new_LRUCache (Number (Finite 3)) = Inr c0
    \<and> run [Set (Str ''one'') (1::nat), Set (Str ''two'') 2, Set (Str ''three'') 3] c0 = Returned () c
    \<and> size_lru c = capacity c \<and> \<not> has (Str ''four'') c
    \<and> set_lru (Str ''four'') 4 c = Returned () c'
    \<and> entries c' = [(Some (Str ''four''), Some 4), (Some (Str ''three''), Some 3),
                      (Some (Str ''two''), Some 2)]
    \<and> emitted c' = [(Some (Str ''one''), Some 1)] \<and> size_lru c' = 3
    \<and> set_lru (Str ''two'') 5 c = Returned () c'' \<and> emitted c'' = []"
proof -
  from one_two_three obtain c :: "nat cache" where
    run: "run [Set (Str ''one'') 1, Set (Str ''two'') 2, Set (Str ''three'') 3]
       \<lparr> capacity = 3, width = Uint8Array, forward = [0, 0, 0], backward = [0, 0, 0],
           K = [None, None, None], V = [None, None, None], events = [], size_lru = 0,
           head = 0, tail = 0, items = Map.empty, emitted = [] \<rparr> = Returned () c"
    and c: "size_lru c = capacity c" "capacity c = 3" "events c = []" "emitted c = []"
      "\<not> has (Str ''four'') c" "items_get (items c) (Str ''two'') = Slot 1"
      "entries c = [(Some (Str ''three''), Some 3), (Some (Str ''two''), Some 2),
                     (Some (Str ''one''), Some 1)]"
    by blast
  note th = eviction_when_calls_return [OF new_LRUCache_3 run]
  from th [of "Str ''four''" 4] c obtain c' where
    c': "set_lru (Str ''four'') 4 c = Returned () c'"
      "entries c' = [(Some (Str ''four''), Some 4), (Some (Str ''three''), Some 3),
                      (Some (Str ''two''), Some 2)]"
      "emitted c' = [(Some (Str ''one''), Some 1)]" "size_lru c' = 3"
    by auto
  from th [of "Str ''two''" 5] c(4,6) obtain c'' where
    c'': "set_lru (Str ''two'') 5 c = Returned () c''" "emitted c'' = []"
    by auto
  from new_LRUCache_3 run c(1,5) c' c'' show ?thesis by blast
qed

section \<open>Recency order\<close>

lemma live_key:
  assumes "invar c" "Some k \<in> set (keys c)"
  obtains p w where "items c (toPropertyKey k) = Some p" "K c ! p = Some k" "V c ! p = Some w"
    "p < size_lru c"
proof -
  from assms(2) obtain p where p: "p \<in> set (chain c)" "K c ! p = Some k"
    by (auto simp: keys_def)
  from p(1) have lt: "p < size_lru c" by (simp add: invar_chain(3) [OF assms(1)])
  from indexedD1 [OF invarD(3) [OF assms(1)] lt] p(2) obtain w where
    "V c ! p = Some w" "items c (toPropertyKey k) = Some p" by auto
  with p(2) lt that show thesis by blast
qed

lemma entry_of_slot:
  assumes "invar c" "p < size_lru c"
  shows "(K c ! p, V c ! p) \<in> set (entries c)"
proof -
  from assms(2) have "p \<in> {..<size_lru c}" by simp
  then have "p \<in> set (chain c)" by (simp only: invar_chain(3) [OF assms(1)])
  then show ?thesis by (auto simp: entries_def)
qed

text \<open>
  Claim C4 says that after \<open>set(k, v)\<close> or a \<open>get(k)\<close> hit, for a key \<open>k\<close> that is
  present, \<open>k\<close> is the first element of \<open>entries()\<close>. A key is found under its
  property name: in a cache holding the number 1 and the string x, \<open>has("1")\<close> is true
  and \<open>get("1")\<close> is a hit returning the value stored for 1, and after it, as after
  \<open>set("1", 7)\<close>, the first element of \<open>entries()\<close> has the key 1, the number, and
  not the key "1".
\<close>

theorem C4_recency_counterexample:
  "\<exists>c0 c c' c''.
      new_LRUCache (Number (Finite 2)) = Inr c0
    \<and> run [Set (Num ''1'') (10::nat), Set (Str ''x'') 5] c0 = Returned () c
    \<and> entries c = [(Some (Str ''x''), Some 5), (Some (Num ''1''), Some 10)]
    \<and> has (Str ''1'') c
    \<and> get (Str ''1'') c = Returned (Some 10) c'
    \<and> entries c' = [(Some (Num ''1''), Some 10), (Some (Str ''x''), Some 5)]
    \<and> fst (hd (entries c')) \<noteq> Some (Str ''1'')
    \<and> set_lru (Str ''1'') 7 c = Returned () c''
    \<and> entries c'' = [(Some (Num ''1''), Some 7), (Some (Str ''x''), Some 5)]
    \<and> fst (hd (entries c'')) \<noteq> Some (Str ''1'')"
  unfolding new_LRUCache_2
  by (simp add: eval)

text \<open>
  Claim C4, amended. In a state reached from a fresh cache by calls that all returned,
  for a key \<open>k\<close> whose property name the index holds (\<open>has(k)\<close> is true and \<open>k\<close>
  names no member of \<open>Object.prototype\<close>; so for every key that \<open>keys()\<close> lists):
  the index leads to a live entry, stored with a key \<open>ks\<close> of the same property name,
  which is \<open>k\<close> itself when \<open>keys()\<close> lists \<open>k\<close>. After \<open>set(k, v)\<close>, and after
  \<open>get(k)\<close>, which returns the value stored in that entry, the entry is the first of
  \<open>entries()\<close>, under the key \<open>ks\<close>, and the entries of the other keys follow in
  the order they had; no key is listed twice. \<open>peek(k)\<close> returns for every key that
  names no member of \<open>Object.prototype\<close>, and leaves \<open>entries()\<close> as it was.
\<close>

theorem C4_recency:
  fixes c :: "'v cache"
  assumes "new_LRUCache cap = Inr c0" and "run calls c0 = Returned () c"
  shows "(\<forall>p. items_get (items c) k = Slot p \<longrightarrow>
            (\<exists>ks w. K c ! p = Some ks \<and> V c ! p = Some w
                \<and> toPropertyKey ks = toPropertyKey k
                \<and> (Some k \<in> set (keys c) \<longrightarrow> ks = k)
                \<and> (Some ks, Some w) \<in> set (entries c)
                \<and> (\<exists>c'. set_lru k v c = Returned () c'
                      \<and> entries c' = (Some ks, Some v) # filter (\<lambda>e. fst e \<noteq> Some ks) (entries c))
                \<and> (\<exists>c'. get k c = Returned (Some w) c'
                      \<and> entries c' = (Some ks, Some w) # filter (\<lambda>e. fst e \<noteq> Some ks) (entries c))))
       \<and> (has k c \<and> toPropertyKey k \<notin> set Object_prototype \<longrightarrow>
            (\<exists>p. items_get (items c) k = Slot p))
       \<and> (Some k \<in> set (keys c) \<longrightarrow> (\<exists>p. items_get (items c) k = Slot p))
       \<and> (toPropertyKey k \<notin> set Object_prototype \<longrightarrow> (\<exists>r. peek k c = Returned r c))
       \<and> (\<forall>r c'. peek k c = Returned r c' \<longrightarrow> entries c' = entries c)
       \<and> distinct (keys c)"
proof (intro conjI impI allI)
  note inv = reachable_invar [OF assms]
  show "distinct (keys c)" by (rule invar_distinct_keys [OF inv])
  { fix r c' assume "peek k c = Returned r c'"
    then show "entries c' = entries c" by (auto dest: peek_same) }
  { assume "toPropertyKey k \<notin> set Object_prototype"
    then show "\<exists>r. peek k c = Returned r c"
      by (simp add: peek_def items_get_def split: option.split) }
  { assume "has k c \<and> toPropertyKey k \<notin> set Object_prototype"
    then show "\<exists>p. items_get (items c) k = Slot p"
      by (auto simp: has_def items_get_def split: option.splits) }
  { assume "Some k \<in> set (keys c)"
    from live_key [OF inv this] obtain p where "items c (toPropertyKey k) = Some p" .
    then show "\<exists>p. items_get (items c) k = Slot p" by (simp add: items_get_Slot) }
  { fix p assume "items_get (items c) k = Slot p"
    then have p: "items c (toPropertyKey k) = Some p" by (simp add: items_get_Slot)
    note i = invarD(3) [OF inv]
    note lt = indexedD2(1) [OF i p]
    from indexedD2(3) [OF i p] obtain ks where
      ks: "K c ! p = Some ks" "toPropertyKey ks = toPropertyKey k"
      by blast
    from indexedD1 [OF i lt] obtain w where w: "V c ! p = Some w" by auto
    have same: "ks = k" if "Some k \<in> set (keys c)"
    proof -
      from live_key [OF inv that] obtain q where
        "items c (toPropertyKey k) = Some q" "K c ! q = Some k" .
      with p ks(1) show ?thesis by simp
    qed
    from entry_of_slot [OF inv lt] have mem: "(Some ks, Some w) \<in> set (entries c)"
      by (simp add: ks w)
    from set_lru_Slot [OF p, of v] entries_overwrite [OF inv p, of v]
    have s: "\<exists>c'. set_lru k v c = Returned () c'
                \<and> entries c' = (Some ks, Some v) # filter (\<lambda>e. fst e \<noteq> Some ks) (entries c)"
      by (simp add: ks)
    from get_Slot [OF p] entries_splay [OF inv p]
    have g: "\<exists>c'. get k c = Returned (Some w) c'
                \<and> entries c' = (Some ks, Some w) # filter (\<lambda>e. fst e \<noteq> Some ks) (entries c)"
      by (simp add: ks w)
    from ks w same mem s g
    show "\<exists>ks w. K c ! p = Some ks \<and> V c ! p = Some w
                \<and> toPropertyKey ks = toPropertyKey k
                \<and> (Some k \<in> set (keys c) \<longrightarrow> ks = k)
                \<and> (Some ks, Some w) \<in> set (entries c)
                \<and> (\<exists>c'. set_lru k v c = Returned () c'
                      \<and> entries c' = (Some ks, Some v) # filter (\<lambda>e. fst e \<noteq> Some ks) (entries c))
                \<and> (\<exists>c'. get k c = Returned (Some w) c'
                      \<and> entries c' = (Some ks, Some w) # filter (\<lambda>e. fst e \<noteq> Some ks) (entries c))"
      by blast }
qed

theorem C4_recency_witness:
  "\<exists>c0 c c' c'' c'''.
      new_LRUCache (Number (Finite 3)) = Inr c0
    \<and> run [Set (Str ''one'') (1::nat), Set (Str ''two'') 2, Set (Str ''three'') 3] c0 = Returned () c
    \<and> items_get (items c) (Str ''two'') = Slot 1
    \<and> Some (Str ''two'') \<in> set (keys c)
    \<and> set_lru (Str ''two'') 5 c = Returned () c'
    \<and> entries c' = [(Some (Str ''two''), Some 5), (Some (Str ''three''), Some 3),
                      (Some (Str ''one''), Some 1)]
    \<and> get (Str ''two'') c = Returned (Some 2) c''
    \<and> entries c'' = [(Some (Str ''two''), Some 2), (Some (Str ''three''), Some 3),
                      (Some (Str ''one''), Some 1)]
    \<and> peek (Str ''one'') c = Returned (Some 1) c'''
    \<and> entries c''' = entries c"
proof -
  from one_two_three obtain c :: "nat cache" where
    run: "run [Set (Str ''one'') 1, Set (Str ''two'') 2, Set (Str ''three'') 3]
       \<lparr> capacity = 3, width = Uint8Array, forward = [0, 0, 0], backward = [0, 0, 0],
           K = [None, None, None], V = [None, None, None], events = [], size_lru = 0,
           head = 0, tail = 0, items = Map.empty, emitted = [] \<rparr> = Returned () c"
    and c: "entries c = [(Some (Str ''three''), Some 3), (Some (Str ''two''), Some 2),
                     (Some (Str ''one''), Some 1)]"
      "items_get (items c) (Str ''one'') = Slot 0" "V c ! 0 = Some 1"
    and two: "items_get (items c) (Str ''two'') = Slot 1" "V c ! 1 = Some 2"
    by blast
  from c(1) have k: "Some (Str ''two'') \<in> set (keys c)" by (simp add: keys_entries)
  note th = C4_recency [OF new_LRUCache_3 run]
  from th [of "Str ''two''" 5] two k obtain c' c'' where
    c': "set_lru (Str ''two'') 5 c = Returned () c'"
      "entries c' = (Some (Str ''two''), Some 5)
         # filter (\<lambda>e. fst e \<noteq> Some (Str ''two'')) (entries c)"
    and c'': "get (Str ''two'') c = Returned (Some 2) c''"
      "entries c'' = (Some (Str ''two''), Some 2)
         # filter (\<lambda>e. fst e \<noteq> Some (Str ''two'')) (entries c)"
    by auto
  from c(2,3) have p: "peek (Str ''one'') c = Returned (Some 1) c" by (simp add: peek_def)
  with th [of "Str ''one''" 5] have "entries c = entries c" by blast
  from c'(2) c''(2) have e: "entries c' = [(Some (Str ''two''), Some 5), (Some (Str ''three''), Some 3),
                      (Some (Str ''one''), Some 1)]"
    "entries c'' = [(Some (Str ''two''), Some 2), (Some (Str ''three''), Some 3),
                      (Some (Str ''one''), Some 1)]"
    by (simp_all add: c(1))
  from new_LRUCache_3 run two(1) k c'(1) c''(1) e p show ?thesis by blast
qed



section \<open>A callback that throws\<close>

text \<open>A full cache of capacity 2 with a callback that throws.\<close>

lemma a_b_throwing:
  "\<exists>c. run [On (\<lambda>k v. Throws), Set (Str ''a'') (1::nat), Set (Str ''b'') 2]
       \<lparr> capacity = 2, width = Uint8Array, forward = [0, 0], backward = [0, 0],
           K = [None, None], V = [None, None], events = [], size_lru = 0,
           head = 0, tail = 0, items = Map.empty, emitted = [] \<rparr> = Returned () c
     \<and> size_lru c = capacity c \<and> \<not> has (Str ''c'') c \<and> has (Str ''a'') c
     \<and> emit (events c) (K c ! tail c) (V c ! tail c) = Throws
     \<and> K c ! tail c = Some (Str ''a'') \<and> V c ! tail c = Some 1 \<and> emitted c = []
     \<and> entries c = [(Some (Str ''b''), Some 2), (Some (Str ''a''), Some 1)]
     \<and> set_lru (Str ''c'') 3 c = Raised (dropLast c)
     \<and> setpop (Str ''c'') 3 c = Raised (dropLast c)
     \<and> \<not> has (Str ''c'') (dropLast c)
     \<and> entries (dropLast c) = [(Some (Str ''b''), Some 2), (Some (Str ''a''), Some 1)]"
  by (simp add: eval)

lemma dropLast_chain: "chain (dropLast c) = chain c"
  by (simp add: chain_def)

lemma dropLast_entries: "entries (dropLast c) = entries c"
  by (simp add: entries_def dropLast_chain)

text \<open>
  Claim C2 says that when a callback throws during an eviction, the new entry is fully
  committed before the failure reaches the caller of \<open>set\<close>, and the mutation is
  never left half-done. The code calls \<open>emit\<close> in the middle of the eviction, between
  the removal of the evicted key from the index and the store of the new entry. In a state
  reached from a fresh cache by calls that all returned, in which the cache is full,
  when \<open>set\<close> or \<open>setpop\<close> is called with a key that \<open>has\<close> does not find and a
  callback throws on the evicted entry, the exception reaches the caller before the new
  entry is stored, and the old entry is removed by half: the key of the tail entry has
  left the key index, \<open>tail\<close> is the tail's predecessor and the event is in the
  history, while keys, values, links, head and size are as before the call, so that
  \<open>entries()\<close> still lists the evicted entry, which \<open>has\<close> no longer finds.
\<close>

theorem C2_handler_raises:
  fixes c :: "'v cache"
  assumes "new_LRUCache cap = Inr c0" and "run calls c0 = Returned () c"
    and "size_lru c = capacity c" and "\<not> has k c"
    and "emit (events c) (K c ! tail c) (V c ! tail c) = Throws"
  shows "set_lru k v c = Raised (dropLast c) \<and> setpop k v c = Raised (dropLast c)
       \<and> \<not> has k (dropLast c)
       \<and> (\<exists>kt vt. K c ! tail c = Some kt \<and> V c ! tail c = Some vt \<and> has kt c
             \<and> \<not> has kt (dropLast c)
             \<and> emitted (dropLast c) = emitted c @ [(Some kt, Some vt)])
       \<and> tail (dropLast c) = backward c ! tail c
       \<and> head (dropLast c) = head c \<and> size_lru (dropLast c) = size_lru c
       \<and> forward (dropLast c) = forward c \<and> backward (dropLast c) = backward c
       \<and> K (dropLast c) = K c \<and> V (dropLast c) = V c
       \<and> entries (dropLast c) = entries c"
proof -
  note inv = reachable_invar [OF assms(1,2)]
  from assms(3) have nf: "\<not> size_lru c < capacity c" by simp
  from assms(4) have ab: "items_get (items c) k = Absent" by (simp add: has_def)
  then have none: "items c (toPropertyKey k) = None"
    and np: "toPropertyKey k \<notin> set Object_prototype"
    by (simp_all add: items_get_Absent)
  note i = invarD(3) [OF inv]
  from invar_full(2) [OF inv nf] have pos: "0 < size_lru c" .
  from indexedD1 [OF i invar_tail(1) [OF inv pos]] obtain kt vt where
    kt: "K c ! tail c = Some kt" "V c ! tail c = Some vt"
      "items c (toPropertyKey kt) = Some (tail c)" .
  have 1: "set_lru k v c = Raised (dropLast c)" by (rule set_lru_throw [OF ab nf assms(5)])
  have 2: "setpop k v c = Raised (dropLast c)" by (rule setpop_throw [OF ab nf assms(5)])
  have 3: "\<not> has k (dropLast c)" using none np by (simp add: has_def items_get_Absent)
  have 4: "has kt c" using kt(3) by (simp add: has_def items_get_def)
  have 5: "\<not> has kt (dropLast c)"
    using indexedD2(2) [OF i kt(3)] by (simp add: has_def items_get_Absent kt(1))
  have 6: "emitted (dropLast c) = emitted c @ [(Some kt, Some vt)]" by (simp add: kt)
  from 4 5 6 kt have "\<exists>kt vt. K c ! tail c = Some kt \<and> V c ! tail c = Some vt \<and> has kt c
             \<and> \<not> has kt (dropLast c)
             \<and> emitted (dropLast c) = emitted c @ [(Some kt, Some vt)]" by blast
  with 1 2 3 show ?thesis by (simp add: dropLast_entries)
qed

theorem C2_handler_raises_witness:
  "\<exists>c0 c.
      new_LRUCache (Number (Finite 2)) = Inr c0
    \<and> run [On (\<lambda>k v. Throws), Set (Str ''a'') (1::nat), Set (Str ''b'') 2] c0 = Returned () c
    \<and> size_lru c = capacity c \<and> \<not> has (Str ''c'') c
    \<and> emit (events c) (K c ! tail c) (V c ! tail c) = Throws
    \<and> set_lru (Str ''c'') 3 c = Raised (dropLast c)
    \<and> \<not> has (Str ''c'') (dropLast c) \<and> has (Str ''a'') c \<and> \<not> has (Str ''a'') (dropLast c)
    \<and> emitted (dropLast c) = [(Some (Str ''a''), Some 1)]
    \<and> entries (dropLast c) = [(Some (Str ''b''), Some 2), (Some (Str ''a''), Some 1)]"
proof -
  from a_b_throwing obtain c :: "nat cache" where
    run: "run [On (\<lambda>k v. Throws), Set (Str ''a'') (1::nat), Set (Str ''b'') 2]
       \<lparr> capacity = 2, width = Uint8Array, forward = [0, 0], backward = [0, 0],
           K = [None, None], V = [None, None], events = [], size_lru = 0,
           head = 0, tail = 0, items = Map.empty, emitted = [] \<rparr> = Returned () c"
    and c: "size_lru c = capacity c" "\<not> has (Str ''c'') c"
      "emit (events c) (K c ! tail c) (V c ! tail c) = Throws"
    and more: "has (Str ''a'') c" "K c ! tail c = Some (Str ''a'')" "emitted c = []"
      "entries c = [(Some (Str ''b''), Some 2), (Some (Str ''a''), Some 1)]"
      "V c ! tail c = Some 1"
    by blast
  from C2_handler_raises [OF new_LRUCache_2 run c, of 3] more
  have "set_lru (Str ''c'') 3 c = Raised (dropLast c)"
    "\<not> has (Str ''c'') (dropLast c)" "\<not> has (Str ''a'') (dropLast c)"
    "entries (dropLast c) = [(Some (Str ''b''), Some 2), (Some (Str ''a''), Some 1)]"
    "emitted (dropLast c) = [(Some (Str ''a''), Some 1)]"
    by auto
  then show ?thesis using new_LRUCache_2 run c more(1) by blast
qed

section \<open>The state a caught exception leaves\<close>

lemma run_caught_run: "run xs c = Returned u c' \<Longrightarrow> run_caught xs c = Returned u c'"
  by (induction xs arbitrary: c) (auto split: outcome.splits)

lemma run_caught_append:
  "run_caught (xs @ ys) c =
     (case run_caught xs c of Returned u c' \<Rightarrow> run_caught ys c' | Raised c' \<Rightarrow> Raised c' | Stray \<Rightarrow> Stray)"
  by (induction xs arbitrary: c) (auto split: outcome.splits)

lemma backward_tail:
  assumes "invar c" "2 \<le> size_lru c"
  shows "backward c ! tail c = last (butlast (chain c))" "backward c ! tail c \<noteq> tail c"
    "backward c ! tail c < size_lru c" "backward c ! tail c \<in> set (butlast (chain c))"
proof -
  from assms(2) have pos: "0 < size_lru c" by simp
  note t = invar_tail [OF assms(1) pos] and ch = invar_chain [OF assms(1)]
  from ch(1) assms(2) have len: "2 \<le> length (chain c)" by simp
  then have ne: "butlast (chain c) \<noteq> []" by (cases "chain c" rule: rev_cases) auto
  have split: "chain c = butlast (chain c) @ [tail c]"
    using t(2,4) by simp
  from invarD(2) [OF assms(1)] have "linked (backward c) (rev (chain c))"
    by (simp add: holds_def)
  then have "linked (backward c) (tail c # rev (butlast (chain c)))"
    by (subst (asm) split) simp
  with ne show 1: "backward c ! tail c = last (butlast (chain c))"
    by (simp add: linked_Cons hd_rev)
  from ne have in': "last (butlast (chain c)) \<in> set (butlast (chain c))" by simp
  with 1 show 4: "backward c ! tail c \<in> set (butlast (chain c))" by simp
  from ch(2) have "distinct (butlast (chain c) @ [tail c])" by (subst (asm) split)
  then have "tail c \<notin> set (butlast (chain c))" by simp
  with 4 show "backward c ! tail c \<noteq> tail c" by auto
  from 4 have "backward c ! tail c \<in> set (chain c)" by (rule in_set_butlastD)
  then have "backward c ! tail c \<in> {..<size_lru c}" by (simp only: ch(3))
  then show "backward c ! tail c < size_lru c" by simp
qed

text \<open>
  Claim C3 says that in every full cache \<open>set\<close> with a key not present removes exactly
  the tail entry, the last of \<open>entries()\<close>. A full cache is also what a caught exception
  of a callback leaves, and there it does not: in a state reached by calls that all
  returned, full with at least two entries, let \<open>set(k, v)\<close> of a key that \<open>has\<close>
  does not find end with a callback's exception. The caller that catches it has a cache
  that is still full and lists the same entries, the last of which \<open>has\<close> no longer
  finds. The next \<open>set\<close> of a key that \<open>has\<close> does not find, with callbacks that
  return, emits and removes from the index an entry that is not the last of
  \<open>entries()\<close>, but one before it.
\<close>

theorem C3_after_caught_exception:
  fixes c :: "'v cache"
  assumes "new_LRUCache cap = Inr c0" and "run calls c0 = Returned () c"
    and "size_lru c = capacity c" and "2 \<le> capacity c" and "\<not> has k c"
    and "emit (events c) (K c ! tail c) (V c ! tail c) = Throws"
  shows "\<exists>c1 kt vt kp vp.
           run_caught (calls @ [Set k v]) c0 = Returned () c1
         \<and> size_lru c1 = capacity c1 \<and> capacity c1 = capacity c
         \<and> entries c1 = entries c
         \<and> last (entries c1) = (Some kt, Some vt) \<and> \<not> has kt c1
         \<and> (Some kp, Some vp) \<in> set (butlast (entries c1)) \<and> kp \<noteq> kt \<and> has kp c1
         \<and> (\<forall>k' v'. \<not> has k' c1 \<and> emit (events c1) (Some kp) (Some vp) = Completes \<longrightarrow>
               (\<exists>c2. set_lru k' v' c1 = Returned () c2
                   \<and> emitted c2 = emitted c1 @ [(Some kp, Some vp)]
                   \<and> \<not> has kp c2 \<and> has k' c2))"
proof -
  note inv = reachable_invar [OF assms(1,2)]
  let ?c1 = "dropLast c"
  from assms(3,4) have two: "2 \<le> size_lru c" and pos: "0 < size_lru c"
    and nf: "\<not> size_lru c < capacity c" by simp_all
  from assms(5) have ab: "items_get (items c) k = Absent" by (simp add: has_def)
  note i = invarD(3) [OF inv] and t = invar_tail [OF inv pos] and b = backward_tail [OF inv two]
  from indexedD1 [OF i t(1)] obtain kt vt where
    kt: "K c ! tail c = Some kt" "V c ! tail c = Some vt"
      "items c (toPropertyKey kt) = Some (tail c)" .
  from indexedD1 [OF i b(3)] obtain kp vp where
    kp: "K c ! (backward c ! tail c) = Some kp" "V c ! (backward c ! tail c) = Some vp"
      "items c (toPropertyKey kp) = Some (backward c ! tail c)" .
  from kt(3) kp(3) b(2) have ne: "toPropertyKey kp \<noteq> toPropertyKey kt" by auto
  then have kne: "kp \<noteq> kt" by auto
  have r: "run_caught (calls @ [Set k v]) c0 = Returned () ?c1"
    by (simp add: run_caught_append run_caught_run [OF assms(2)] set_lru_throw [OF ab nf assms(6)])
  have e: "entries ?c1 = entries c" by (rule dropLast_entries)
  from entries_evict(2) [OF inv ab assms(3)] kt
  have l: "last (entries ?c1) = (Some kt, Some vt)" by (simp add: e)
  have nh: "\<not> has kt ?c1"
    using indexedD2(2) [OF i kt(3)] by (simp add: has_def items_get_Absent kt(1))
  have hp: "has kp ?c1" using kp(3) ne by (simp add: has_def items_get_def kt(1))
  have "(K c ! (backward c ! tail c), V c ! (backward c ! tail c))
          \<in> (\<lambda>p. (K c ! p, V c ! p)) ` set (butlast (chain c))"
    using b(4) by (rule imageI)
  then have "(Some kp, Some vp) \<in> set (butlast (entries c))"
    by (simp add: entries_def map_butlast [symmetric] kp)
  then have mem: "(Some kp, Some vp) \<in> set (butlast (entries ?c1))"
    by (simp only: e)
  have tl: "tail ?c1 = backward c ! tail c" by simp
  have KV: "K ?c1 = K c" "V ?c1 = V c" by simp_all
  have nxt: "\<exists>c2. set_lru k' v' ?c1 = Returned () c2
                   \<and> emitted c2 = emitted ?c1 @ [(Some kp, Some vp)]
                   \<and> \<not> has kp c2 \<and> has k' c2"
    if a: "\<not> has k' ?c1 \<and> emit (events ?c1) (Some kp) (Some vp) = Completes" for k' v'
  proof -
    from a have ab': "items_get (items ?c1) k' = Absent" by (simp add: has_def)
    from a have e': "emit (events ?c1) (K ?c1 ! tail ?c1) (V ?c1 ! tail ?c1) = Completes"
      by (simp add: tl KV kp)
    from assms(3) have nf': "\<not> size_lru ?c1 < capacity ?c1" by simp
    let ?c2 = "storeKeyValue (tail ?c1) k' v' (dropLast ?c1)"
    have s: "set_lru k' v' ?c1 = Returned () ?c2" by (rule set_lru_evict [OF ab' nf' e'])
    have em: "emitted ?c2 = emitted ?c1 @ [(Some kp, Some vp)]"
      by (simp add: kp)
    from hp ab' have d: "toPropertyKey kp \<noteq> toPropertyKey k'"
      by (auto simp: has_def items_get_Absent items_get_def split: option.splits if_splits)
    from indexedD2(2) [OF i kp(3)] d have "\<not> has kp ?c2"
      by (simp add: has_def items_get_Absent kp)
    moreover have "has k' ?c2" by (simp add: has_def items_get_def)
    ultimately show ?thesis using s em by blast
  qed
  from r assms(3) e l nh mem kne hp nxt show ?thesis
    by (intro exI [of _ ?c1] exI [of _ kt] exI [of _ vt] exI [of _ kp] exI [of _ vp])
       simp
qed

text \<open>
  Capacity 2, a callback that throws when a is evicted: a and b are set, \<open>set("c", 3)\<close>
  throws and is caught, and \<open>set("d", 4)\<close> evicts b, the most recently used entry,
  after which \<open>entries()\<close> lists d twice.
\<close>

lemma a_b_throwing_on_a:
  "\<exists>c c1 c2.
       run [On (\<lambda>k v. if k = Some (Str ''a'') then Throws else Completes),
            Set (Str ''a'') (1::nat), Set (Str ''b'') 2]
         \<lparr> capacity = 2, width = Uint8Array, forward = [0, 0], backward = [0, 0],
           K = [None, None], V = [None, None], events = [], size_lru = 0,
           head = 0, tail = 0, items = Map.empty, emitted = [] \<rparr> = Returned () c
     \<and> size_lru c = capacity c \<and> 2 \<le> capacity c \<and> \<not> has (Str ''c'') c
     \<and> emit (events c) (K c ! tail c) (V c ! tail c) = Throws
     \<and> entries c = [(Some (Str ''b''), Some 2), (Some (Str ''a''), Some 1)]
     \<and> run_caught [On (\<lambda>k v. if k = Some (Str ''a'') then Throws else Completes),
            Set (Str ''a'') (1::nat), Set (Str ''b'') 2, Set (Str ''c'') 3]
         \<lparr> capacity = 2, width = Uint8Array, forward = [0, 0], backward = [0, 0],
           K = [None, None], V = [None, None], events = [], size_lru = 0,
           head = 0, tail = 0, items = Map.empty, emitted = [] \<rparr> = Returned () c1
     \<and> \<not> has (Str ''d'') c1 \<and> emitted c1 = [(Some (Str ''a''), Some 1)]
     \<and> emit (events c1) (Some (Str ''b'')) (Some 2) = Completes
     \<and> set_lru (Str ''d'') 4 c1 = Returned () c2
     \<and> entries c2 = [(Some (Str ''d''), Some 4), (Some (Str ''d''), Some 4)]
     \<and> \<not> has (Str ''a'') c2"
  by (simp add: eval)

theorem C3_after_caught_exception_witness:
  "\<exists>c0 c c1 c2.
      new_LRUCache (Number (Finite 2)) = Inr c0
    \<and> run [On (\<lambda>k v. if k = Some (Str ''a'') then Throws else Completes),
            Set (Str ''a'') (1::nat), Set (Str ''b'') 2] c0 = Returned () c
    \<and> size_lru c = capacity c \<and> 2 \<le> capacity c \<and> \<not> has (Str ''c'') c
    \<and> emit (events c) (K c ! tail c) (V c ! tail c) = Throws
    \<and> entries c = [(Some (Str ''b''), Some 2), (Some (Str ''a''), Some 1)]
    \<and> run_caught [On (\<lambda>k v. if k = Some (Str ''a'') then Throws else Completes),
            Set (Str ''a'') (1::nat), Set (Str ''b'') 2, Set (Str ''c'') 3] c0 = Returned () c1
    \<and> size_lru c1 = capacity c1
    \<and> entries c1 = [(Some (Str ''b''), Some 2), (Some (Str ''a''), Some 1)]
    \<and> \<not> has (Str ''d'') c1
    \<and> set_lru (Str ''d'') 4 c1 = Returned () c2
    \<and> emitted c2 = [(Some (Str ''a''), Some 1), (Some (Str ''b''), Some 2)]
    \<and> \<not> has (Str ''b'') c2 \<and> \<not> has (Str ''a'') c2
    \<and> entries c2 = [(Some (Str ''d''), Some 4), (Some (Str ''d''), Some 4)]"
proof -
  let ?h = "\<lambda>k (v :: nat option). if k = Some (Str ''a'') then Throws else Completes"
  let ?c0 = "\<lparr> capacity = 2, width = Uint8Array, forward = [0, 0], backward = [0, 0],
           K = [None, None], V = [None, None], events = [], size_lru = 0,
           head = 0, tail = 0, items = Map.empty, emitted = [] \<rparr> :: nat cache"
  from a_b_throwing_on_a obtain c c1 c2 :: "nat cache" where
    run: "run [On ?h, Set (Str ''a'') 1, Set (Str ''b'') 2] ?c0 = Returned () c"
    and c: "size_lru c = capacity c" "2 \<le> capacity c" "\<not> has (Str ''c'') c"
      "emit (events c) (K c ! tail c) (V c ! tail c) = Throws"
    and e: "entries c = [(Some (Str ''b''), Some 2), (Some (Str ''a''), Some 1)]"
    and r1: "run_caught [On ?h, Set (Str ''a'') 1, Set (Str ''b'') 2, Set (Str ''c'') 3] ?c0
               = Returned () c1"
    and c1: "\<not> has (Str ''d'') c1" "emitted c1 = [(Some (Str ''a''), Some 1)]"
      "emit (events c1) (Some (Str ''b'')) (Some 2) = Completes"
    and c2: "set_lru (Str ''d'') 4 c1 = Returned () c2"
      "entries c2 = [(Some (Str ''d''), Some 4), (Some (Str ''d''), Some 4)]"
      "\<not> has (Str ''a'') c2"
    by blast
  from C3_after_caught_exception [OF new_LRUCache_2 run c, of 3] r1
  obtain kt vt kp vp where
    t: "size_lru c1 = capacity c1" "entries c1 = entries c"
      "(Some kp, Some vp) \<in> set (butlast (entries c1))"
      "\<forall>k' v'. \<not> has k' c1 \<and> emit (events c1) (Some kp) (Some vp) = Completes \<longrightarrow>
               (\<exists>c2. set_lru k' v' c1 = Returned () c2
                   \<and> emitted c2 = emitted c1 @ [(Some kp, Some vp)]
                   \<and> \<not> has kp c2 \<and> has k' c2)"
    by auto
  from t(2,3) e have kp: "kp = Str ''b''" "vp = 2" by simp_all
  from t(4) [rule_format, of "Str ''d''" 4] c1 c2(1) kp
  have em: "emitted c2 = [(Some (Str ''a''), Some 1), (Some (Str ''b''), Some 2)]"
    "\<not> has (Str ''b'') c2"
    by auto
  from t(2) e have e1: "entries c1 = [(Some (Str ''b''), Some 2), (Some (Str ''a''), Some 1)]"
    by simp
  from new_LRUCache_2 run c e r1 t(1) e1 c1(1) c2 em show ?thesis by blast
qed

section \<open>Keys the index mistakes\<close>

lemma new_LRUCache_1:
  "new_LRUCache (Number (Finite 1)) =
     Inr \<lparr> capacity = 1, width = Uint8Array, forward = [0], backward = [0],
           K = [None], V = [None], events = [], size_lru = 0,
           head = 0, tail = 0, items = Map.empty, emitted = [] \<rparr>"
  by (simp add: new_LRUCache_def isFinite_def Math_floor_def le_zero_def
      getPointerArray_thresholds MAX_32BIT_INTEGER_def)

text \<open>
  Claim C1 says that \<open>setpop\<close> returns \<open>null\<close> only when the key is new and the cache
  has room, and the evicted entry whenever another key was displaced. What it returns
  in a state reached from a fresh cache: for a key the index holds, the overwritten
  outcome with the argument key and the old value; \<open>null\<close> for a new key when there
  is room; and when the cache is full (the callbacks returning), the tail entry is
  evicted and the result is decided by \<open>if (oldKey)\<close>, the truth value of the evicted
  key, so it is \<open>null\<close> again when that key is 0 or the empty string.
\<close>

theorem C1_setpop_outcome:
  fixes c :: "'v cache"
  assumes "new_LRUCache cap = Inr c0" and "run calls c0 = Returned () c"
  shows "(\<forall>p. items_get (items c) k = Slot p \<longrightarrow>
            (\<exists>c'. setpop k v c = Returned (Popped False (Some k) (V c ! p)) c'))
       \<and> (\<not> has k c \<and> size_lru c < capacity c \<longrightarrow> (\<exists>c'. setpop k v c = Returned Null c'))
       \<and> (\<not> has k c \<and> size_lru c = capacity c
            \<and> emit (events c) (K c ! tail c) (V c ! tail c) = Completes \<longrightarrow>
            (\<exists>c' kt vt. last (entries c) = (Some kt, Some vt)
               \<and> entries c' = (Some k, Some v) # butlast (entries c)
               \<and> emitted c' = emitted c @ [(Some kt, Some vt)]
               \<and> \<not> has kt c'
               \<and> setpop k v c =
                     Returned (if truthy_key (Some kt) then Popped True (Some kt) (Some vt) else Null) c'))"
proof (intro conjI impI allI)
  note inv = reachable_invar [OF assms]
  { fix p assume "items_get (items c) k = Slot p"
    then have "items c (toPropertyKey k) = Some p" by (simp add: items_get_Slot)
    from setpop_Slot [OF this, of v]
    show "\<exists>c'. setpop k v c = Returned (Popped False (Some k) (V c ! p)) c'" by simp }
  { assume "\<not> has k c \<and> size_lru c < capacity c"
    then have "items_get (items c) k = Absent" "size_lru c < capacity c"
      by (simp_all add: has_def)
    from setpop_insert [OF this, of v] show "\<exists>c'. setpop k v c = Returned Null c'" by simp }
  { assume a: "\<not> has k c \<and> size_lru c = capacity c
            \<and> emit (events c) (K c ! tail c) (V c ! tail c) = Completes"
    then have full: "size_lru c = capacity c" and nf: "\<not> size_lru c < capacity c"
      and ab: "items_get (items c) k = Absent"
      and e: "emit (events c) (K c ! tail c) (V c ! tail c) = Completes"
      by (simp_all add: has_def)
    let ?c' = "storeKeyValue (tail c) k v (dropLast c)"
    note s = setpop_evict [OF ab nf e, of v]
    note en = entries_evict(1) [OF inv ab full, of v] entries_evict(2,3) [OF inv ab full]
    from evict_index [OF inv ab full, of v] obtain kt vt where
      kt: "K c ! tail c = Some kt" "V c ! tail c = Some vt" "\<not> has kt ?c'"
      by blast
    from s en kt
    show "\<exists>c' kt vt. last (entries c) = (Some kt, Some vt)
               \<and> entries c' = (Some k, Some v) # butlast (entries c)
               \<and> emitted c' = emitted c @ [(Some kt, Some vt)]
               \<and> \<not> has kt c'
               \<and> setpop k v c =
                     Returned (if truthy_key (Some kt) then Popped True (Some kt) (Some vt) else Null) c'"
      by (intro exI [of _ ?c'] exI [of _ kt] exI [of _ vt]) simp }
qed

lemma zero_then_one:
  "\<exists>c. run [Set (Num ''0'') (10::nat)]
       \<lparr> capacity = 1, width = Uint8Array, forward = [0], backward = [0],
           K = [None], V = [None], events = [], size_lru = 0,
           head = 0, tail = 0, items = Map.empty, emitted = [] \<rparr> = Returned () c
    \<and> size_lru c = capacity c \<and> \<not> has (Num ''1'') c \<and> has (Num ''0'') c
    \<and> emit (events c) (K c ! tail c) (V c ! tail c) = Completes
    \<and> entries c = [(Some (Num ''0''), Some 10)] \<and> emitted c = []"
  by (simp add: eval)

text \<open>
  In a full cache of capacity 1 holding the key 0, \<open>setpop(1, 11)\<close> evicts 0, emits
  the event for it, and returns \<open>null\<close>.
\<close>

theorem C1_setpop_outcome_witness:
  "\<exists>c0 c c'.
      new_LRUCache (Number (Finite 1)) = Inr c0
    \<and> run [Set (Num ''0'') (10::nat)] c0 = Returned () c
    \<and> size_lru c = capacity c \<and> \<not> has (Num ''1'') c \<and> has (Num ''0'') c
    \<and> setpop (Num ''1'') 11 c = Returned Null c'
    \<and> emitted c' = [(Some (Num ''0''), Some 10)]
    \<and> entries c' = [(Some (Num ''1''), Some 11)]
    \<and> \<not> has (Num ''0'') c'"
proof -
  from zero_then_one obtain c :: "nat cache" where
    run: "run [Set (Num ''0'') (10::nat)]
       \<lparr> capacity = 1, width = Uint8Array, forward = [0], backward = [0],
           K = [None], V = [None], events = [], size_lru = 0,
           head = 0, tail = 0, items = Map.empty, emitted = [] \<rparr> = Returned () c"
    and c: "size_lru c = capacity c" "\<not> has (Num ''1'') c" "has (Num ''0'') c"
      "emit (events c) (K c ! tail c) (V c ! tail c) = Completes"
      "entries c = [(Some (Num ''0''), Some 10)]" "emitted c = []"
    by blast
  from C1_setpop_outcome [OF new_LRUCache_1 run, of "Num ''1''" 11] c
  obtain c' where "setpop (Num ''1'') 11 c = Returned Null c'"
    "emitted c' = [(Some (Num ''0''), Some 10)]" "entries c' = [(Some (Num ''1''), Some 11)]"
    "\<not> has (Num ''0'') c'"
    by auto
  with new_LRUCache_1 run c(1,2,3) show ?thesis by blast
qed

lemma run_append:
  "run (xs @ ys) c = (case run xs c of Returned u c' \<Rightarrow> run ys c' | Raised c' \<Rightarrow> Raised c' | Stray \<Rightarrow> Stray)"
  by (induction xs arbitrary: c) (auto split: outcome.splits)

text \<open>
  Claim C5 says that every state a sequence of calls reaches is well-formed. The key
  index is a plain object: for a key that names a member of \<open>Object.prototype\<close>, in
  any state reached from a fresh cache, \<open>has\<close> answers true although no slot stores
  the key, and \<open>get\<close>, \<open>peek\<close>, \<open>set\<close> and \<open>setpop\<close> take the inherited function
  for a slot: the run leaves the states this model describes.
\<close>

theorem C5_inherited_key:
  fixes c :: "'v cache"
  assumes "new_LRUCache cap = Inr c0" and "run calls c0 = Returned () c"
    and "toPropertyKey k \<in> set Object_prototype"
  shows "has k c \<and> Some k \<notin> set (keys c)
       \<and> get k c = Stray \<and> peek k c = Stray \<and> set_lru k v c = Stray \<and> setpop k v c = Stray
       \<and> run (calls @ Get k # rest) c0 = Stray
       \<and> run (calls @ Set k v # rest) c0 = Stray"
proof -
  note inv = reachable_invar [OF assms(1,2)]
  have none: "items c (toPropertyKey k) = None"
  proof (cases "items c (toPropertyKey k)")
    case (Some p)
    from indexedD2(2) [OF invarD(3) [OF inv] Some] assms(3) show ?thesis by simp
  qed simp
  with assms(3) have inh: "items_get (items c) k = Inherited" by (simp add: items_get_Inherited)
  have "Some k \<notin> set (keys c)"
  proof
    assume "Some k \<in> set (keys c)"
    from live_key [OF inv this] none show False by auto
  qed
  moreover have "get k c = Stray" "peek k c = Stray" using inh by (simp_all add: get_def peek_def)
  moreover have "set_lru k v c = Stray" "setpop k v c = Stray"
    using inh by (simp_all add: set_lru_def setpop_def)
  moreover have "has k c" using inh by (simp add: has_def)
  ultimately show ?thesis using assms(2) by (simp add: run_append)
qed

theorem C5_inherited_key_witness:
  "\<exists>c0 c.
      new_LRUCache (Number (Finite 2)) = Inr c0
    \<and> run [Set (Str ''a'') (1::nat), Set (Str ''b'') 2] c0 = Returned () c
    \<and> has (Str ''constructor'') c
    \<and> Some (Str ''constructor'') \<notin> set (keys c)
    \<and> get (Str ''constructor'') c = Stray
    \<and> set_lru (Str ''constructor'') 3 c = Stray
    \<and> run [Set (Str ''a'') 1, Set (Str ''b'') 2, Get (Str ''constructor'')] c0 = Stray"
proof -
  have "\<exists>c :: nat cache. run [Set (Str ''a'') (1::nat), Set (Str ''b'') 2]
       \<lparr> capacity = 2, width = Uint8Array, forward = [0, 0], backward = [0, 0],
           K = [None, None], V = [None, None], events = [], size_lru = 0,
           head = 0, tail = 0, items = Map.empty, emitted = [] \<rparr> = Returned () c"
    by (simp add: eval)
  then obtain c :: "nat cache" where
    run: "run [Set (Str ''a'') (1::nat), Set (Str ''b'') 2]
       \<lparr> capacity = 2, width = Uint8Array, forward = [0, 0], backward = [0, 0],
           K = [None, None], V = [None, None], events = [], size_lru = 0,
           head = 0, tail = 0, items = Map.empty, emitted = [] \<rparr> = Returned () c"
    by blast
  have k: "toPropertyKey (Str ''constructor'') \<in> set Object_prototype"
    by (simp add: Object_prototype_def)
  from C5_inherited_key [OF new_LRUCache_2 run k, of 3 "[]"] new_LRUCache_2 run
  show ?thesis by auto
qed

section \<open>Other keys\<close>

text \<open>Two keys with different property names do not share a slot.\<close>

lemma slots_differ:
  assumes "invar c" "items c (toPropertyKey k1) = Some p" "items c (toPropertyKey k2) = Some q"
    "toPropertyKey k1 \<noteq> toPropertyKey k2"
  shows "p \<noteq> q"
proof
  assume "p = q"
  with indexedD2(3) [OF invarD(3) [OF assms(1)] assms(2)]
    indexedD2(3) [OF invarD(3) [OF assms(1)] assms(3)] assms(4)
  show False by auto
qed

lemma answers_by_index:
  assumes "items c' (toPropertyKey k) = items c (toPropertyKey k)"
    and "\<And>q. items c (toPropertyKey k) = Some q \<Longrightarrow> V c' ! q = V c ! q"
  shows "has k c' = has k c" "answer (peek k c') = answer (peek k c)"
    "answer (get k c') = answer (get k c)"
proof -
  show "has k c' = has k c" by (simp add: has_def items_get_def assms(1))
  show "answer (peek k c') = answer (peek k c)"
    using assms by (cases "items c (toPropertyKey k)") (simp_all add: peek_def items_get_def)
  show "answer (get k c') = answer (get k c)"
    using assms by (cases "items c (toPropertyKey k)") (simp_all add: get_def items_get_def Let_def)
qed

text \<open>
  Claim C7 says that \<open>set\<close> on one key leaves the answers for every other key as
  they were, also for the number 1 and the string "1". Two things stand against it.
  The index is keyed by property name, so after \<open>set(1, 10)\<close> the key "1" is found
  and has the value 10. And \<open>set\<close> of a new key on a full cache evicts the least
  recently used key: in a cache of capacity 1 holding a, \<open>set("b", 2)\<close> removes a.
\<close>

theorem C7_other_keys_counterexample:
  "\<exists>c0 c c' d0 d d'.
      new_LRUCache (Number (Finite 2)) = Inr c0
    \<and> run [Set (Str ''x'') (5::nat)] c0 = Returned () c
    \<and> Num ''1'' \<noteq> Str ''1''
    \<and> set_lru (Num ''1'') 10 c = Returned () c'
    \<and> \<not> has (Str ''1'') c \<and> has (Str ''1'') c'
    \<and> answer (peek (Str ''1'') c) = Some None
    \<and> answer (peek (Str ''1'') c') = Some (Some 10)
    \<and> new_LRUCache (Number (Finite 1)) = Inr d0
    \<and> run [Set (Str ''a'') (1::nat)] d0 = Returned () d
    \<and> Str ''b'' \<noteq> Str ''a''
    \<and> set_lru (Str ''b'') 2 d = Returned () d'
    \<and> has (Str ''a'') d \<and> \<not> has (Str ''a'') d'
    \<and> answer (peek (Str ''a'') d) = Some (Some 1)
    \<and> answer (peek (Str ''a'') d') = Some None"
  unfolding new_LRUCache_2 new_LRUCache_1
  by (simp add: eval)

text \<open>
  Claim C7, amended. In a state reached from a fresh cache by calls that all returned,
  for keys \<open>k1\<close> and \<open>k2\<close> whose property names differ, \<open>k1\<close> naming no member of
  \<open>Object.prototype\<close>: when \<open>set(k1, v1)\<close> returns (no callback throws),
  \<open>has(k2)\<close>, \<open>peek(k2)\<close> and \<open>get(k2)\<close> answer as before, unless the call
  evicted the entry of \<open>k2\<close> (\<open>has\<close> did not find \<open>k1\<close>, the cache was full and
  the entry stored under the property name of \<open>k2\<close> was at the tail, the last of
  \<open>entries()\<close>).
\<close>

theorem C7_other_keys:
  fixes c :: "'v cache"
  assumes "new_LRUCache cap = Inr c0" and "run calls c0 = Returned () c"
    and "toPropertyKey k1 \<noteq> toPropertyKey k2"
    and "set_lru k1 v1 c = Returned () c'"
    and "\<not> (\<not> has k1 c \<and> size_lru c = capacity c \<and> items_get (items c) k2 = Slot (tail c))"
  shows "has k2 c' = has k2 c \<and> answer (peek k2 c') = answer (peek k2 c)
       \<and> answer (get k2 c') = answer (get k2 c)"
proof -
  note inv = reachable_invar [OF assms(1,2)]
  note b = invarD(1) [OF inv] and i = invarD(3) [OF inv]
  have "items c' (toPropertyKey k2) = items c (toPropertyKey k2)
      \<and> (\<forall>q. items c (toPropertyKey k2) = Some q \<longrightarrow> V c' ! q = V c ! q)"
  proof (cases "items_get (items c) k1")
    case Inherited
    with assms(4) show ?thesis by (simp add: set_lru_Inherited)
  next
    case (Slot p)
    then have p: "items c (toPropertyKey k1) = Some p" by (simp add: items_get_Slot)
    from assms(4) have c': "c' = (splayOnTop p c)\<lparr>V := (V (splayOnTop p c))[p := Some v1]\<rparr>"
      by (simp add: set_lru_Slot [OF p])
    have "V c' ! q = V c ! q" if "items c (toPropertyKey k2) = Some q" for q
      using slots_differ [OF inv p that assms(3)] by (simp add: c')
    then show ?thesis by (simp add: c')
  next
    case Absent
    then have nh: "\<not> has k1 c" by (simp add: has_def)
    show ?thesis
    proof (cases "size_lru c < capacity c")
      case True
      from assms(4) have c': "c' = storeKeyValue (size_lru c) k1 v1 (c\<lparr>size_lru := size_lru c + 1\<rparr>)"
        by (simp add: set_lru_insert [OF Absent True])
      have "V c' ! q = V c ! q" if "items c (toPropertyKey k2) = Some q" for q
        using indexedD2(1) [OF i that] by (simp add: c')
      with assms(3) show ?thesis by (simp add: c')
    next
      case False
      note full = invar_full [OF inv False]
      from assms(4) have "set_lru k1 v1 c \<noteq> Raised (dropLast c)" by simp
      with set_lru_throw [OF Absent False, of v1] emit_cases [of "events c" "K c ! tail c" "V c ! tail c"]
      have e: "emit (events c) (K c ! tail c) (V c ! tail c) = Completes" by auto
      from assms(4) have c': "c' = storeKeyValue (tail c) k1 v1 (dropLast c)"
        by (simp add: set_lru_evict [OF Absent False e])
      from indexedD1 [OF i invar_tail(1) [OF inv full(2)]] obtain kt vt where
        kt: "K c ! tail c = Some kt" "items c (toPropertyKey kt) = Some (tail c)" by blast
      from assms(5) nh full(1) have nt: "items c (toPropertyKey k2) \<noteq> Some (tail c)"
        by (simp add: items_get_Slot)
      with kt(2) have ne: "toPropertyKey kt \<noteq> toPropertyKey k2" by auto
      have "V c' ! q = V c ! q" if "items c (toPropertyKey k2) = Some q" for q
        using that nt by (auto simp: c')
      with assms(3) ne show ?thesis by (simp add: c' kt(1))
    qed
  qed
  then show ?thesis using answers_by_index [of c' k2 c] by blast
qed


theorem C7_other_keys_witness:
  "\<exists>c0 c c'.
      new_LRUCache (Number (Finite 3)) = Inr c0
    \<and> run [Set (Str ''one'') (1::nat), Set (Str ''two'') 2, Set (Str ''three'') 3] c0 = Returned () c
    \<and> toPropertyKey (Str ''four'') \<noteq> toPropertyKey (Str ''two'')
    \<and> set_lru (Str ''four'') 4 c = Returned () c'
    \<and> \<not> has (Str ''four'') c \<and> size_lru c = capacity c
    \<and> items_get (items c) (Str ''two'') \<noteq> Slot (tail c)
    \<and> has (Str ''two'') c'
    \<and> answer (peek (Str ''two'') c') = Some (Some 2)
    \<and> answer (get (Str ''two'') c') = Some (Some 2)"
proof -
  from one_two_three obtain c :: "nat cache" where
    run: "run [Set (Str ''one'') 1, Set (Str ''two'') 2, Set (Str ''three'') 3]
       \<lparr> capacity = 3, width = Uint8Array, forward = [0, 0, 0], backward = [0, 0, 0],
           K = [None, None, None], V = [None, None, None], events = [], size_lru = 0,
           head = 0, tail = 0, items = Map.empty, emitted = [] \<rparr> = Returned () c"
    and c: "size_lru c = capacity c" "events c = []" "\<not> has (Str ''four'') c"
      "items_get (items c) (Str ''two'') = Slot 1" "tail c = 0" "V c ! 1 = Some 2"
    by blast
  have n: "toPropertyKey (Str ''four'') \<noteq> toPropertyKey (Str ''two'')" by simp
  from c(1,2,3) have s: "set_lru (Str ''four'') 4 c =
      Returned () (storeKeyValue (tail c) (Str ''four'') 4 (dropLast c))"
    by (intro set_lru_evict) (simp_all add: has_def)
  from c(4,5) have t: "items_get (items c) (Str ''two'') \<noteq> Slot (tail c)" by simp
  then have "\<not> (\<not> has (Str ''four'') c \<and> size_lru c = capacity c
      \<and> items_get (items c) (Str ''two'') = Slot (tail c))" by simp
  from C7_other_keys [OF new_LRUCache_3 run n s this] c(4,6)
  have "has (Str ''two'') (storeKeyValue (tail c) (Str ''four'') 4 (dropLast c))"
    "answer (peek (Str ''two'') (storeKeyValue (tail c) (Str ''four'') 4 (dropLast c))) = Some (Some 2)"
    "answer (get (Str ''two'') (storeKeyValue (tail c) (Str ''four'') 4 (dropLast c))) = Some (Some 2)"
    by (simp_all add: has_def peek_def get_def Let_def)
  with new_LRUCache_3 run n s c(1,3) t show ?thesis by blast
qed

section \<open>Bulk construction and the round trip\<close>

lemma set_all_append:
  "set_all (ps @ qs) c =
     (case set_all ps c of Returned u c' \<Rightarrow> set_all qs c' | Raised c' \<Rightarrow> Raised c' | Stray \<Rightarrow> Stray)"
  by (induction ps arbitrary: c) (auto split: outcome.splits)

lemma set_all_snoc:
  "set_all ps c = Returned () c' \<Longrightarrow> set_all (ps @ [(k, v)]) c = set_lru k v c'"
  by (simp add: set_all_append split: outcome.splits)

lemma fst_surviving: "fst ` set (surviving ps) = fst ` set ps"
  by (induction ps rule: surviving.induct) auto

lemma distinct_surviving: "distinct (map fst (surviving ps))"
  by (induction ps rule: surviving.induct) (auto simp: fst_surviving)

lemma surviving_snoc:
  "surviving (ps @ [(k, v)]) = filter (\<lambda>e. fst e \<noteq> k) (surviving ps) @ [(k, v)]"
  by (induction ps rule: surviving.induct) auto

text \<open>Taking a key out of a list without repeated keys, before and after a cut.\<close>

lemma filter_absent: "k \<notin> fst ` set xs \<Longrightarrow> filter (\<lambda>e. fst e \<noteq> k) xs = xs"
  by (induction xs) auto

lemma filter_take_present:
  "distinct (map fst xs) \<Longrightarrow> k \<in> fst ` set (take n xs) \<Longrightarrow>
   filter (\<lambda>e. fst e \<noteq> k) (take n xs) = take (n - 1) (filter (\<lambda>e. fst e \<noteq> k) xs)"
proof (induction xs arbitrary: n)
  case Nil
  then show ?case by simp
next
  case (Cons e xs)
  from Cons.prems(2) obtain m where n: "n = Suc m" by (cases n) auto
  show ?case
  proof (cases "fst e = k")
    case True
    with Cons.prems(1) have "k \<notin> fst ` set xs" by auto
    then have "filter (\<lambda>e. fst e \<noteq> k) xs = xs" by (rule filter_absent)
    moreover from \<open>k \<notin> fst ` set xs\<close> have "k \<notin> fst ` set (take m xs)"
      by (auto dest: in_set_takeD)
    then have "filter (\<lambda>e. fst e \<noteq> k) (take m xs) = take m xs" by (rule filter_absent)
    ultimately show ?thesis using True n by simp
  next
    case False
    with Cons.prems(2) n have k: "k \<in> fst ` set (take m xs)" by auto
    then have "0 < m" by (cases m) auto
    with Cons.IH [of m] Cons.prems(1) k False n show ?thesis
      by (cases m) simp_all
  qed
qed

lemma take_filter_absent:
  "k \<notin> fst ` set (take n xs) \<Longrightarrow> take n (filter (\<lambda>e. fst e \<noteq> k) xs) = take n xs"
proof (induction xs arbitrary: n)
  case Nil
  then show ?case by simp
next
  case (Cons e xs)
  then show ?case by (cases n) auto
qed


lemma take_cons_filter_take:
  assumes "distinct (map fst xs)"
  shows "take n (e # filter (\<lambda>e. fst e \<noteq> k) (take n xs)) =
         take n (e # filter (\<lambda>e. fst e \<noteq> k) xs)"
proof (cases n)
  case 0
  then show ?thesis by simp
next
  case (Suc m)
  have "take m (filter (\<lambda>e. fst e \<noteq> k) (take (Suc m) xs)) = take m (filter (\<lambda>e. fst e \<noteq> k) xs)"
  proof (cases "k \<in> fst ` set (take (Suc m) xs)")
    case True
    from filter_take_present [OF assms True] show ?thesis by simp
  next
    case False
    then have 1: "filter (\<lambda>e. fst e \<noteq> k) (take (Suc m) xs) = take (Suc m) xs"
      by (rule filter_absent)
    from False have "k \<notin> fst ` set (take m xs)"
      by (metis (no_types, lifting) image_iff le_add2 plus_1_eq_Suc set_take_subset_set_take subsetD)
    then have "take m (filter (\<lambda>e. fst e \<noteq> k) xs) = take m xs" by (rule take_filter_absent)
    with 1 show ?thesis by (simp add: min_def)
  qed
  with Suc show ?thesis by simp
qed

lemma filter_some:
  "filter (\<lambda>e. fst e \<noteq> Some k) (map (\<lambda>(k, v). (Some k, Some v)) xs) =
   map (\<lambda>(k, v). (Some k, Some v)) (filter (\<lambda>e. fst e \<noteq> k) xs)"
  by (induction xs) auto

lemma keys_some:
  "entries c = map (\<lambda>(k, v). (Some k, Some v)) xs \<Longrightarrow> (Some k \<in> set (keys c)) = (k \<in> fst ` set xs)"
  by (force simp: keys_entries)

lemma set_lru_abstract:
  fixes c :: "'v cache" and xs :: "(key \<times> 'v) list"
  assumes inv: "invar c" and ev: "events c = []"
    and en: "entries c = map (\<lambda>(k, v). (Some k, Some v)) xs"
    and inj: "\<And>k'. k' \<in> fst ` set xs \<Longrightarrow> toPropertyKey k' = toPropertyKey k \<Longrightarrow> k' = k"
    and np: "toPropertyKey k \<notin> set Object_prototype"
  shows "\<exists>c'. set_lru k v c = Returned () c' \<and> invar c' \<and> events c' = []
            \<and> capacity c' = capacity c
            \<and> entries c' = map (\<lambda>(k, v). (Some k, Some v))
                  (take (capacity c) ((k, v) # filter (\<lambda>e. fst e \<noteq> k) xs))"
proof -
  have len: "length xs = size_lru c"
    using arg_cong [OF en, of length] by (simp add: length_entries invar_chain(1) [OF inv])
  have sz: "size_lru c \<le> capacity c" using invarD(1) [OF inv] by (simp add: bounded_def)
  have absent: "k \<notin> fst ` set xs" if "items c (toPropertyKey k) = None"
  proof
    assume "k \<in> fst ` set xs"
    then have "Some k \<in> set (keys c)" by (simp add: keys_some [OF en])
    from live_key [OF inv this] that show False by auto
  qed
  show ?thesis
  proof (cases "items_get (items c) k")
    case Inherited
    with np show ?thesis by (simp add: items_get_Inherited)
  next
    case (Slot p)
    then have p: "items c (toPropertyKey k) = Some p" by (simp add: items_get_Slot)
    let ?c' = "(splayOnTop p c)\<lparr>V := (V (splayOnTop p c))[p := Some v]\<rparr>"
    from indexedD2(3) [OF invarD(3) [OF inv] p] obtain k' where
      k': "K c ! p = Some k'" "toPropertyKey k' = toPropertyKey k" by blast
    from entry_of_slot [OF inv invar_slot(1) [OF inv p]] k'(1)
    have "Some k' \<in> set (keys c)" by (force simp: keys_entries)
    then have in_xs: "k' \<in> fst ` set xs" by (simp add: keys_some [OF en])
    from inj [OF this k'(2)] have kk: "k' = k" .
    from in_xs kk obtain w where "(k, w) \<in> set xs" by auto
    then have "length (filter (\<lambda>e. fst e \<noteq> k) xs) < length xs"
      by (rule length_filter_less) simp
    with len sz have short: "length ((k, v) # filter (\<lambda>e. fst e \<noteq> k) xs) \<le> capacity c" by simp
    have "entries ?c' = map (\<lambda>(k, v). (Some k, Some v)) ((k, v) # filter (\<lambda>e. fst e \<noteq> k) xs)"
      using entries_overwrite [OF inv p, of v] by (simp add: k'(1) kk en filter_some)
    with short have "entries ?c' = map (\<lambda>(k, v). (Some k, Some v))
                  (take (capacity c) ((k, v) # filter (\<lambda>e. fst e \<noteq> k) xs))"
      by (simp only: take_all)
    with set_lru_Slot [OF p, of v] overwrite_invar(1) [OF inv p, of v] ev show ?thesis
      by (intro exI [of _ ?c']) simp
  next
    case Absent
    then have none: "items c (toPropertyKey k) = None" by (simp add: items_get_Absent)
    note f = filter_absent [OF absent [OF none]]
    show ?thesis
    proof (cases "size_lru c < capacity c")
      case True
      let ?c' = "storeKeyValue (size_lru c) k v (c\<lparr>size_lru := size_lru c + 1\<rparr>)"
      from True len have short: "length ((k, v) # xs) \<le> capacity c" by simp
      have "entries ?c' = map (\<lambda>(k, v). (Some k, Some v)) ((k, v) # xs)"
        using entries_insert [OF inv Absent True, of v] by (simp add: en)
      with short have "entries ?c' = map (\<lambda>(k, v). (Some k, Some v))
                  (take (capacity c) ((k, v) # filter (\<lambda>e. fst e \<noteq> k) xs))"
        by (simp only: take_all f)
      with set_lru_insert [OF Absent True, of v] insert_invar(1) [OF inv Absent True, of v] ev
      show ?thesis by (intro exI [of _ ?c']) simp
    next
      case False
      note full = invar_full [OF inv False]
      let ?c' = "storeKeyValue (tail c) k v (dropLast c)"
      have e: "emit (events c) (K c ! tail c) (V c ! tail c) = Completes" by (simp add: ev)
      have "entries ?c' = map (\<lambda>(k, v). (Some k, Some v)) ((k, v) # butlast xs)"
        using entries_evict(1) [OF inv Absent full(1), of v] by (simp add: en map_butlast)
      moreover have "take (capacity c) ((k, v) # xs) = (k, v) # butlast xs"
        using len full by (cases "capacity c") (simp_all add: butlast_conv_take)
      ultimately have "entries ?c' = map (\<lambda>(k, v). (Some k, Some v))
                  (take (capacity c) ((k, v) # filter (\<lambda>e. fst e \<noteq> k) xs))"
        by (simp only: f)
      with set_lru_evict [OF Absent False e, of v] evict_invar(1) [OF inv Absent full(1), of v] ev
      show ?thesis by (intro exI [of _ ?c']) simp
    qed
  qed
qed

lemma set_all_fresh:
  fixes c0 :: "'v cache" and ps :: "(key \<times> 'v) list"
  assumes inv: "invar c0" and ev: "events c0 = []" and en: "entries c0 = []"
    and inj: "inj_on toPropertyKey (fst ` set ps)"
    and np: "\<forall>k \<in> fst ` set ps. toPropertyKey k \<notin> set Object_prototype"
  shows "\<exists>c. set_all ps c0 = Returned () c \<and> invar c \<and> events c = []
            \<and> capacity c = capacity c0 \<and> entries c = round_trip (capacity c0) ps"
  using inj np
proof (induction ps rule: rev_induct)
  case Nil
  with inv ev en show ?case by (simp add: round_trip_def)
next
  case (snoc x ps)
  obtain k v where x: "x = (k, v)" by (cases x)
  from snoc.prems have "inj_on toPropertyKey (fst ` set ps)"
    "\<forall>k \<in> fst ` set ps. toPropertyKey k \<notin> set Object_prototype"
    by (auto simp: inj_on_def)
  from snoc.IH [OF this] obtain c where
    c: "set_all ps c0 = Returned () c" "invar c" "events c = []" "capacity c = capacity c0"
      "entries c = round_trip (capacity c0) ps" by blast
  let ?R = "rev (surviving ps)"
  have d: "distinct (map fst ?R)" using distinct_surviving [of ps] by (simp add: rev_map [symmetric])
  have k_inj: "k' = k" if "k' \<in> fst ` set (take (capacity c0) ?R)"
    "toPropertyKey k' = toPropertyKey k" for k'
  proof -
    from that(1) obtain w where "(k', w) \<in> set (take (capacity c0) ?R)" by auto
    then have "(k', w) \<in> set ?R" by (rule in_set_takeD)
    then have "k' \<in> fst ` set ?R" by force
    then have "k' \<in> fst ` set ps" using fst_surviving [of ps] by simp
    with snoc.prems(1) that(2) x show ?thesis by (auto simp: inj_on_def)
  qed
  have k_np: "toPropertyKey k \<notin> set Object_prototype" using snoc.prems(2) x by simp
  from set_lru_abstract [OF c(2,3) c(5) [unfolded round_trip_def] k_inj k_np, of v]
  obtain c' where c': "set_lru k v c = Returned () c'" "invar c'" "events c' = []"
    "capacity c' = capacity c"
    "entries c' = map (\<lambda>(k, v). (Some k, Some v))
        (take (capacity c) ((k, v) # filter (\<lambda>e. fst e \<noteq> k) (take (capacity c0) ?R)))"
    by blast
  have "rev (surviving (ps @ [x])) = (k, v) # filter (\<lambda>e. fst e \<noteq> k) ?R"
    by (simp add: x surviving_snoc rev_filter)
  with c'(5) have "entries c' = round_trip (capacity c0) (ps @ [x])"
    by (simp add: round_trip_def c(4) take_cons_filter_take [OF d])
  with c' c(4) set_all_snoc [OF c(1), of k v] x show ?case by simp
qed


lemma default_capacity_cases:
  "default_capacity it =
     (if truthy_number (size_of it) then Number (the (size_of it))
      else if truthy_number (length_of it) then Number (the (length_of it))
      else Number (Finite 0))"
  by (cases "size_of it"; cases "length_of it") (auto simp: default_capacity_def or_else_def)

lemma from_lru_Undefined: "from_lru it Undefined = from_lru it (default_capacity it)"
  by (simp add: from_lru_def default_capacity_cases)

lemma from_lru_Number:
  "from_lru it (Number n) =
     (case new_LRUCache (Number n) of Inl e \<Rightarrow> Inl e | Inr c \<Rightarrow> Inr (set_all (pairs it) c))"
  by (simp add: from_lru_def)

lemma length_surviving: "length (surviving ps) \<le> length ps"
proof (induction ps)
  case Nil
  then show ?case by simp
next
  case (Cons x ps)
  obtain k v where x: "x = (k, v)" by (cases x)
  from Cons show ?case by (cases "k \<in> fst ` set ps") (simp_all add: x)
qed

lemma map_of_rev_Cons:
  "map_of (rev ((k0, v0) # ps)) k =
     (case map_of (rev ps) k of None \<Rightarrow> (if k = k0 then Some v0 else None) | Some w \<Rightarrow> Some w)"
  by (auto simp: map_add_def split: option.split)

lemma map_of_rev_None: "map_of (rev ps) k = None \<longleftrightarrow> k \<notin> fst ` set ps"
  by (simp add: map_of_eq_None_iff)

lemma surviving_last:
  "(k, v) \<in> set (surviving ps) \<longleftrightarrow> map_of (rev ps) k = Some v"
proof (induction ps)
  case Nil
  then show ?case by simp
next
  case (Cons x ps)
  obtain k0 v0 where x: "x = (k0, v0)" by (cases x)
  have notin: "(k', w) \<notin> set (surviving ps)" if "k' \<notin> fst ` set ps" for k' w
    using that fst_surviving [of ps] by force
  show ?case
  proof (cases "k0 \<in> fst ` set ps")
    case True
    show ?thesis
    proof (cases "map_of (rev ps) k")
      case None
      then have "k \<notin> fst ` set ps" by (simp add: map_of_rev_None)
      with True have "k \<noteq> k0" by auto
      with None Cons True show ?thesis by (simp add: x map_of_rev_Cons del: rev.simps)
    next
      case (Some w)
      with Cons True show ?thesis by (simp add: x map_of_rev_Cons del: rev.simps)
    qed
  next
    case False
    then have n0: "map_of (rev ps) k0 = None" by (simp add: map_of_rev_None)
    show ?thesis
    proof (cases "k = k0")
      case True
      with False n0 notin [OF False] show ?thesis
        by (auto simp: x map_of_rev_Cons simp del: rev.simps)
    next
      case ne: False
      with False Cons show ?thesis
        by (cases "map_of (rev ps) k") (simp_all add: x map_of_rev_Cons del: rev.simps)
    qed
  qed
qed

lemma from_lru_valid:
  fixes it :: "'v iterable"
  assumes inj: "inj_on toPropertyKey (fst ` set (pairs it))"
    and np: "\<forall>k \<in> fst ` set (pairs it). toPropertyKey k \<notin> set Object_prototype"
    and n: "0 < n" "n \<le> 4294967295"
  shows "\<exists>c. from_lru it (Number (Finite (of_nat n))) = Inr (Returned () c)
            \<and> capacity c = n \<and> entries c = round_trip n (pairs it)"
proof -
  from n have "int n - 1 \<le> 4294967295" by simp
  then have "\<exists>w. getPointerArray (int n) = Inr w"
    unfolding getPointerArray_thresholds by (simp del: of_nat_diff)
  then obtain w where "getPointerArray (int n) = Inr w" by blast
  with new_LRUCache_valid [OF n(1), where 'a = 'v] n(2)
  obtain c0 :: "'v cache" where c0: "new_LRUCache (Number (Finite (of_nat n))) = Inr c0"
    "capacity c0 = n"
    by simp
  note f = new_LRUCache_invar [OF c0(1)]
  have "entries c0 = []" by (simp add: entries_def f(2))
  from set_all_fresh [OF f(1) f(3) this inj np] c0 show ?thesis
    by (auto simp: from_lru_Number)
qed


text \<open>
  Claim C9 says that for every finite sequence of pairs \<open>from\<close> builds a cache whose
  \<open>entries()\<close> are the surviving pairs, most recent first. For an array holding the
  pairs of the number 1 and of the string "1", the cache holds one entry, the first
  key with the second value, which is neither pair; and for the empty array, whose
  known length is 0, the default capacity is 0 and no cache is built.
\<close>

theorem C9_from_counterexample:
  "(\<exists>c. from_lru \<lparr>pairs = [(Num ''1'', 10::nat), (Str ''1'', 20)], size_of = None,
                   length_of = Some (Finite 2)\<rparr> Undefined = Inr (Returned () c)
        \<and> entries c = [(Some (Num ''1''), Some 20)]
        \<and> round_trip 2 [(Num ''1'', 10::nat), (Str ''1'', 20)] =
             [(Some (Str ''1''), Some 20), (Some (Num ''1''), Some 10)]
        \<and> entries c \<noteq> round_trip 2 [(Num ''1'', 10::nat), (Str ''1'', 20)])
   \<and> from_lru \<lparr>pairs = [] :: (key \<times> nat) list, size_of = None,
                length_of = Some (Finite 0)\<rparr> Undefined = Inl InvalidCapacity"
proof -
  have d: "default_capacity \<lparr>pairs = [(Num ''1'', 10::nat), (Str ''1'', 20)], size_of = None,
                   length_of = Some (Finite 2)\<rparr> = Number (Finite 2)"
    by (simp add: default_capacity_cases)
  have r: "round_trip 2 [(Num ''1'', 10::nat), (Str ''1'', 20)] =
             [(Some (Str ''1''), Some 20), (Some (Num ''1''), Some 10)]"
    by (simp add: round_trip_def)
  have "\<exists>c. from_lru \<lparr>pairs = [(Num ''1'', 10::nat), (Str ''1'', 20)], size_of = None,
                   length_of = Some (Finite 2)\<rparr> Undefined = Inr (Returned () c)
        \<and> entries c = [(Some (Num ''1''), Some 20)]"
    unfolding from_lru_Undefined d from_lru_Number new_LRUCache_2
    by (simp add: eval)
  moreover have "from_lru \<lparr>pairs = [] :: (key \<times> nat) list, size_of = None,
                length_of = Some (Finite 0)\<rparr> Undefined = Inl InvalidCapacity"
    unfolding from_lru_Undefined
    by (simp add: default_capacity_cases from_lru_Number new_LRUCache_invalid)
  ultimately show ?thesis unfolding r by auto
qed

text \<open>
  Claim C9, amended. For pairs whose keys have different property names where they
  differ, none naming a member of \<open>Object.prototype\<close>, and a capacity \<open>n\<close> between 1
  and \<open>2^32 - 1\<close>, given or defaulted: \<open>from\<close> builds a cache of capacity \<open>n\<close>
  whose \<open>entries()\<close> are the \<open>n\<close> most recently inserted surviving pairs, most
  recent first, a key's surviving pair being the last one given for it; they are all
  the surviving pairs when \<open>n\<close> is at least the number of pairs. Without a capacity
  argument the capacity is \<open>size\<close> if that is a number other than 0 and \<open>NaN\<close>, else
  \<open>length\<close> likewise (each a number or absent), else 0; with neither (an unknown or
  a zero length) construction fails with the invalid-capacity error.
\<close>

theorem C9_from_round_trip:
  fixes it :: "'v iterable"
  assumes "inj_on toPropertyKey (fst ` set (pairs it))"
    and "\<forall>k \<in> fst ` set (pairs it). toPropertyKey k \<notin> set Object_prototype"
  shows "(\<forall>n. 0 < n \<and> n \<le> 4294967295
              \<and> (capv = Number (Finite (of_nat n))
                  \<or> capv = Undefined \<and> default_capacity it = Number (Finite (of_nat n))) \<longrightarrow>
            (\<exists>c. from_lru it capv = Inr (Returned () c) \<and> capacity c = n
               \<and> entries c = round_trip n (pairs it)
               \<and> (length (pairs it) \<le> n \<longrightarrow>
                    entries c = map (\<lambda>(k, v). (Some k, Some v)) (rev (surviving (pairs it))))))
       \<and> default_capacity it =
            (if truthy_number (size_of it) then Number (the (size_of it))
             else if truthy_number (length_of it) then Number (the (length_of it))
             else Number (Finite 0))
       \<and> (\<not> truthy_number (size_of it) \<and> \<not> truthy_number (length_of it) \<longrightarrow>
            from_lru it Undefined = Inl InvalidCapacity)
       \<and> (\<forall>k v. (k, v) \<in> set (surviving (pairs it)) \<longleftrightarrow> map_of (rev (pairs it)) k = Some v)"
proof (intro conjI allI impI)
  show "default_capacity it =
            (if truthy_number (size_of it) then Number (the (size_of it))
             else if truthy_number (length_of it) then Number (the (length_of it))
             else Number (Finite 0))"
    by (rule default_capacity_cases)
  show "(k, v) \<in> set (surviving (pairs it)) \<longleftrightarrow> map_of (rev (pairs it)) k = Some v" for k v
    by (rule surviving_last)
  { assume "\<not> truthy_number (size_of it) \<and> \<not> truthy_number (length_of it)"
    then have "default_capacity it = Number (Finite 0)" by (simp add: default_capacity_cases)
    then show "from_lru it Undefined = Inl InvalidCapacity"
      by (simp add: from_lru_Undefined from_lru_Number new_LRUCache_invalid) }
  { fix n :: nat
    assume a: "0 < n \<and> n \<le> 4294967295
              \<and> (capv = Number (Finite (of_nat n))
                  \<or> capv = Undefined \<and> default_capacity it = Number (Finite (of_nat n)))"
    then have eq: "from_lru it capv = from_lru it (Number (Finite (of_nat n)))"
      by (auto simp: from_lru_Undefined)
    from a have n: "0 < n" "n \<le> 4294967295" by simp_all
    from from_lru_valid [OF assms n] obtain c where
      c: "from_lru it (Number (Finite (of_nat n))) = Inr (Returned () c)" "capacity c = n"
        "entries c = round_trip n (pairs it)" by blast
    have "entries c = map (\<lambda>(k, v). (Some k, Some v)) (rev (surviving (pairs it)))"
      if "length (pairs it) \<le> n"
      using that length_surviving [of "pairs it"] by (simp add: c(3) round_trip_def)
    with c eq
    show "\<exists>c. from_lru it capv = Inr (Returned () c) \<and> capacity c = n
               \<and> entries c = round_trip n (pairs it)
               \<and> (length (pairs it) \<le> n \<longrightarrow>
                    entries c = map (\<lambda>(k, v). (Some k, Some v)) (rev (surviving (pairs it))))"
      by auto }
qed

theorem C9_from_round_trip_witness:
  "(\<exists>c. from_lru \<lparr>pairs = [(Str ''a'', 1::nat), (Str ''b'', 2), (Str ''a'', 3)], size_of = None,
                   length_of = Some (Finite 3)\<rparr> Undefined = Inr (Returned () c)
        \<and> capacity c = 3
        \<and> entries c = [(Some (Str ''a''), Some 3), (Some (Str ''b''), Some 2)])
   \<and> (\<exists>c. from_lru \<lparr>pairs = [(Str ''a'', 1::nat), (Str ''b'', 2), (Str ''c'', 3)], size_of = None,
                   length_of = None\<rparr> (Number (Finite 2)) = Inr (Returned () c)
        \<and> entries c = [(Some (Str ''c''), Some 3), (Some (Str ''b''), Some 2)])
   \<and> from_lru \<lparr>pairs = [(Str ''a'', 1::nat)], size_of = None, length_of = None\<rparr> Undefined
        = Inl InvalidCapacity"
proof -
  let ?it = "\<lparr>pairs = [(Str ''a'', 1::nat), (Str ''b'', 2), (Str ''a'', 3)], size_of = None,
                   length_of = Some (Finite 3)\<rparr>"
  have 1: "inj_on toPropertyKey (fst ` set (pairs ?it))" by (simp add: inj_on_def)
  have 2: "\<forall>k \<in> fst ` set (pairs ?it). toPropertyKey k \<notin> set Object_prototype"
    by (simp add: Object_prototype_def)
  have 3: "0 < (3::nat) \<and> (3::nat) \<le> 4294967295
      \<and> (Undefined = Number (Finite (of_nat 3))
          \<or> Undefined = Undefined \<and> default_capacity ?it = Number (Finite (of_nat 3)))"
    by (simp add: default_capacity_cases)
  have r: "round_trip 3 (pairs ?it) = [(Some (Str ''a''), Some 3), (Some (Str ''b''), Some 2)]"
    by (simp add: round_trip_def)
  from C9_from_round_trip [OF 1 2, of Undefined] 3 r
  have a: "\<exists>c. from_lru ?it Undefined = Inr (Returned () c) \<and> capacity c = 3
        \<and> entries c = [(Some (Str ''a''), Some 3), (Some (Str ''b''), Some 2)]"
    by (metis (no_types, lifting))
  let ?jt = "\<lparr>pairs = [(Str ''a'', 1::nat), (Str ''b'', 2), (Str ''c'', 3)], size_of = None,
                   length_of = None\<rparr>"
  have 4: "inj_on toPropertyKey (fst ` set (pairs ?jt))" by (simp add: inj_on_def)
  have 5: "\<forall>k \<in> fst ` set (pairs ?jt). toPropertyKey k \<notin> set Object_prototype"
    by (simp add: Object_prototype_def)
  have 6: "0 < (2::nat) \<and> (2::nat) \<le> 4294967295
      \<and> (Number (Finite 2) = Number (Finite (of_nat 2))
          \<or> Number (Finite 2) = Undefined \<and> default_capacity ?jt = Number (Finite (of_nat 2)))"
    by simp
  have r': "round_trip 2 (pairs ?jt) = [(Some (Str ''c''), Some 3), (Some (Str ''b''), Some 2)]"
    by (simp add: round_trip_def)
  from C9_from_round_trip [OF 4 5, of "Number (Finite 2)"] 6 r'
  have b: "\<exists>c. from_lru ?jt (Number (Finite 2)) = Inr (Returned () c)
        \<and> entries c = [(Some (Str ''c''), Some 3), (Some (Str ''b''), Some 2)]"
    by (metis (no_types, lifting))
  let ?kt = "\<lparr>pairs = [(Str ''a'', 1::nat)], size_of = None, length_of = None\<rparr>"
  have 7: "inj_on toPropertyKey (fst ` set (pairs ?kt))" by simp
  have 8: "\<forall>k \<in> fst ` set (pairs ?kt). toPropertyKey k \<notin> set Object_prototype"
    by (simp add: Object_prototype_def)
  from C9_from_round_trip [OF 7 8, of Undefined]
  have c: "from_lru ?kt Undefined = Inl InvalidCapacity" by simp
  from a b c show ?thesis by blast
qed

section \<open>Returning runs end in well-formed states\<close>

lemma invar_card_index:
  assumes "invar c"
  shows "card (dom (items c)) = size_lru c"
proof -
  note i = invarD(3) [OF assms]
  let ?name = "\<lambda>p. propertyKeyOf (K c ! p)"
  have "dom (items c) = ?name ` {..<size_lru c}"
  proof (intro set_eqI iffI)
    fix n assume "n \<in> dom (items c)"
    then obtain p where p: "items c n = Some p" by auto
    from indexedD2 [OF i p] obtain k where "p < size_lru c" "K c ! p = Some k" "toPropertyKey k = n"
      by blast
    then show "n \<in> ?name ` {..<size_lru c}" by force
  next
    fix n assume "n \<in> ?name ` {..<size_lru c}"
    then obtain p where p: "p < size_lru c" "n = ?name p" by auto
    from indexedD1 [OF i p(1)] obtain k v where "K c ! p = Some k" "items c (toPropertyKey k) = Some p" .
    with p(2) show "n \<in> dom (items c)" by auto
  qed
  moreover have "inj_on ?name {..<size_lru c}"
  proof (rule inj_onI)
    fix p q assume a: "p \<in> {..<size_lru c}" "q \<in> {..<size_lru c}" "?name p = ?name q"
    from indexedD1 [OF i] a(1) obtain k v where k: "K c ! p = Some k" "items c (toPropertyKey k) = Some p"
      by (metis lessThan_iff)
    from indexedD1 [OF i] a(2) obtain k' v' where k': "K c ! q = Some k'" "items c (toPropertyKey k') = Some q"
      by (metis lessThan_iff)
    from a(3) k k' show "p = q" by simp
  qed
  ultimately show ?thesis by (simp add: card_image)
qed

text \<open>
  Property X1. Every state in which a run of calls from a fresh cache returns is
  well-formed: the size is at most the capacity; the chain from \<open>head\<close> along
  \<open>forward\<close> visits exactly the slots claimed so far, each once, ends at \<open>tail\<close> and is
  linked backwards too; every live slot stores a key and a value and the index leads
  from the key's property name back to the slot; every property of the index names a
  live slot whose key prints as that name; the index has as many properties as the
  cache has entries, and no key is listed twice. (A run that meets a key naming a
  member of \<open>Object.prototype\<close> does not return here: see claim C5.)
\<close>

theorem well_formed_if_returned:
  fixes c :: "'v cache"
  assumes "new_LRUCache cap = Inr c0" and "run calls c0 = Returned () c"
  shows "size_lru c \<le> capacity c
       \<and> length (chain c) = size_lru c \<and> distinct (chain c) \<and> set (chain c) = {..<size_lru c}
       \<and> linked (forward c) (chain c) \<and> linked (backward c) (rev (chain c))
       \<and> (0 < size_lru c \<longrightarrow> hd (chain c) = head c \<and> last (chain c) = tail c)
       \<and> (\<forall>p \<in> set (chain c). \<exists>k v. K c ! p = Some k \<and> V c ! p = Some v
              \<and> items c (toPropertyKey k) = Some p)
       \<and> (\<forall>n p. items c n = Some p \<longrightarrow>
              p \<in> set (chain c) \<and> (\<exists>k. K c ! p = Some k \<and> toPropertyKey k = n))
       \<and> card (dom (items c)) = size_lru c
       \<and> distinct (keys c)"
proof -
  note inv = reachable_invar [OF assms]
  note ch = invar_chain [OF inv] and i = invarD(3) [OF inv]
  have 1: "size_lru c \<le> capacity c" using invarD(1) [OF inv] by (simp add: bounded_def)
  have 2: "linked (forward c) (chain c)" "linked (backward c) (rev (chain c))"
    using invarD(2) [OF inv] by (simp_all add: holds_def)
  have 3: "0 < size_lru c \<longrightarrow> hd (chain c) = head c \<and> last (chain c) = tail c"
    using invar_tail(2,3) [OF inv] by simp
  have 4: "\<forall>p \<in> set (chain c). \<exists>k v. K c ! p = Some k \<and> V c ! p = Some v
              \<and> items c (toPropertyKey k) = Some p"
    unfolding ch(3) using indexedD1 [OF i] by (metis lessThan_iff)
  have 5: "\<forall>n p. items c n = Some p \<longrightarrow>
              p \<in> set (chain c) \<and> (\<exists>k. K c ! p = Some k \<and> toPropertyKey k = n)"
    unfolding ch(3) using indexedD2(1,3) [OF i] by (metis lessThan_iff)
  from 1 2 3 4 5 ch invar_card_index [OF inv] invar_distinct_keys [OF inv]
  show ?thesis by blast
qed

theorem well_formed_if_returned_witness:
  "\<exists>c0 c.
      new_LRUCache (Number (Finite 3)) = Inr c0
    \<and> run [Set (Str ''one'') (1::nat), Set (Str ''two'') 2, Set (Str ''three'') 3] c0 = Returned () c
    \<and> size_lru c \<le> capacity c \<and> length (chain c) = size_lru c \<and> distinct (chain c)
    \<and> card (dom (items c)) = size_lru c \<and> distinct (keys c)"
proof -
  from one_two_three obtain c :: "nat cache" where
    run: "run [Set (Str ''one'') 1, Set (Str ''two'') 2, Set (Str ''three'') 3]
       \<lparr> capacity = 3, width = Uint8Array, forward = [0, 0, 0], backward = [0, 0, 0],
           K = [None, None, None], V = [None, None, None], events = [], size_lru = 0,
           head = 0, tail = 0, items = Map.empty, emitted = [] \<rparr> = Returned () c"
    by blast
  from well_formed_if_returned [OF new_LRUCache_3 run] new_LRUCache_3 run
  show ?thesis by blast
qed

section \<open>The width of the linkage arrays\<close>

lemma bounded_width:
  assumes "bounded c" "capacity c \<le> 2 ^ bits w"
  shows "bounded (c\<lparr>width := w\<rparr>)"
  using assms by (simp add: bounded_def)

lemma splayOnTop_width:
  assumes "bounded c" "capacity c \<le> 2 ^ bits w" "p < capacity c"
  shows "splayOnTop p (c\<lparr>width := w\<rparr>) = (splayOnTop p c)\<lparr>width := w\<rparr>"
proof (cases "head c = p")
  case True
  then show ?thesis by (simp add: splayOnTop_head)
next
  case False
  have "splayOnTop p (c\<lparr>width := w\<rparr>) =
     (c\<lparr>width := w\<rparr>)\<lparr>tail := (if tail c = p then backward c ! p else tail c),
       backward := (if tail c = p then backward c
                    else (backward c)[forward c ! p := backward c ! p])[head c := p],
       forward := (forward c)[backward c ! p := forward c ! p, p := head c],
       head := p\<rparr>"
    using splayOnTop_eq [OF bounded_width [OF assms(1,2)], of p] assms(3) False by simp
  then show ?thesis by (simp add: splayOnTop_eq [OF assms(1,3) False])
qed

lemma storeKeyValue_width:
  assumes "bounded c" "capacity c \<le> 2 ^ bits w" "p < capacity c"
  shows "storeKeyValue p k v (c\<lparr>width := w\<rparr>) = (storeKeyValue p k v c)\<lparr>width := w\<rparr>"
proof -
  have "storeKeyValue p k v (c\<lparr>width := w\<rparr>) =
     (c\<lparr>width := w\<rparr>)\<lparr>items := (items c)(toPropertyKey k \<mapsto> p), K := (K c)[p := Some k],
       V := (V c)[p := Some v], forward := (forward c)[p := head c],
       backward := (backward c)[head c := p], head := p\<rparr>"
    using storeKeyValue_eq [OF bounded_width [OF assms(1,2)], of p k v] assms(3) by simp
  then show ?thesis by (simp add: storeKeyValue_eq [OF assms(1,3)])
qed

lemma dropLast_width: "dropLast (c\<lparr>width := w\<rparr>) = (dropLast c)\<lparr>width := w\<rparr>"
  by (simp add: dropLast_def Let_def)

lemma set_lru_width:
  assumes "invar c" "capacity c \<le> 2 ^ bits w"
  shows "set_lru k v (c\<lparr>width := w\<rparr>) = map_outcome id (\<lambda>s. s\<lparr>width := w\<rparr>) (set_lru k v c)"
proof -
  note b = invarD(1) [OF assms(1)]
  from b have t: "tail c < capacity c" by (simp add: bounded_def)
  have bd: "bounded (dropLast c)" by (rule dropLast_bounded [OF b])
  have b1: "bounded (c\<lparr>size_lru := size_lru c + 1\<rparr>)" if "size_lru c < capacity c"
    using b that by (simp add: bounded_def)
  show ?thesis
  proof (cases "items_get (items c) k")
    case Absent
    show ?thesis
    proof (cases "size_lru c < capacity c")
      case True
      have sw: "c\<lparr>width := w, size_lru := size_lru c + 1\<rparr> = c\<lparr>size_lru := size_lru c + 1, width := w\<rparr>"
        by (rule cache.equality) simp_all
      from storeKeyValue_width [OF b1 [OF True], of w "size_lru c" k v] assms(2) True Absent
      show ?thesis by (simp add: set_lru_def sw del: One_nat_def add_Suc_right)
    next
      case False
      from storeKeyValue_width [OF bd, of w "tail c" k v] assms(2) t False Absent
      show ?thesis by (simp add: set_lru_def Let_def dropLast_width split: completion.split)
    qed
  next
    case (Slot p)
    then have "items c (toPropertyKey k) = Some p" by (simp add: items_get_Slot)
    note s = invar_slot(2) [OF assms(1) this]
    from splayOnTop_width [OF b assms(2) s] Slot show ?thesis
      by (simp add: set_lru_def Let_def)
  next
    case Inherited
    then show ?thesis by (simp add: set_lru_def)
  qed
qed

lemma unit_id: "(\<lambda>a::unit. ()) = id"
  by (simp add: fun_eq_iff)

lemma forget_map: "forget (map_outcome f g x) = map_outcome id g (forget x)"
  by (cases x) simp_all

lemma get_width:
  assumes "invar c" "capacity c \<le> 2 ^ bits w"
  shows "get k (c\<lparr>width := w\<rparr>) = map_outcome id (\<lambda>s. s\<lparr>width := w\<rparr>) (get k c)"
proof (cases "items_get (items c) k")
  case (Slot p)
  then have "items c (toPropertyKey k) = Some p" by (simp add: items_get_Slot)
  note s = invar_slot(2) [OF assms(1) this]
  from splayOnTop_width [OF invarD(1) [OF assms(1)] assms(2) s] Slot show ?thesis
    by (simp add: get_def Let_def)
qed (simp_all add: get_def)

lemma peek_width:
  "peek k (c\<lparr>width := w\<rparr>) = map_outcome id (\<lambda>s. s\<lparr>width := w\<rparr>) (peek k c)"
  by (simp add: peek_def split: lookup.split)

lemma perform_width:
  assumes "invar c" "capacity c \<le> 2 ^ bits w"
  shows "perform x (c\<lparr>width := w\<rparr>) = map_outcome id (\<lambda>s. s\<lparr>width := w\<rparr>) (perform x c)"
proof (cases x)
  case (Set k v)
  then show ?thesis by (simp add: set_lru_width [OF assms])
next
  case (Setpop k v)
  then show ?thesis by (simp add: forget_setpop set_lru_width [OF assms])
next
  case (Get k)
  then show ?thesis by (simp add: get_width [OF assms] forget_map)
next
  case (Peek k)
  then show ?thesis by (simp add: peek_width forget_map)
qed (simp_all add: clear_def on_lru_def)

lemma invar_width:
  assumes "invar c" "capacity c \<le> 2 ^ bits w"
  shows "invar (c\<lparr>width := w\<rparr>)"
proof -
  note d = invarD [OF assms(1)]
  have "holds (c\<lparr>width := w\<rparr>) (chain c) = holds c (chain c)" by (rule holds_cong) simp_all
  moreover have "indexed (c\<lparr>width := w\<rparr>) = indexed c" by (rule indexed_cong) simp_all
  ultimately have "invar (c\<lparr>width := w\<rparr>) \<and> chain (c\<lparr>width := w\<rparr>) = chain c"
    using d bounded_width [OF d(1) assms(2)] by (intro invarI) simp_all
  then show ?thesis by simp
qed

lemma perform_capacity:
  "perform x c = Returned u c' \<Longrightarrow> capacity c' = capacity c"
  by (cases x)
    (auto simp: set_lru_def setpop_def get_def peek_def clear_def on_lru_def Let_def
      forget_Returned split: lookup.splits if_splits completion.splits)

lemma run_width:
  assumes "invar c" "capacity c \<le> 2 ^ bits w"
  shows "run xs (c\<lparr>width := w\<rparr>) = map_outcome id (\<lambda>s. s\<lparr>width := w\<rparr>) (run xs c)"
  using assms
proof (induction xs arbitrary: c)
  case Nil
  then show ?case by simp
next
  case (Cons x xs)
  show ?case
  proof (cases "perform x c")
    case (Returned u c1)
    then have r: "perform x c = Returned () c1" by simp
    from Cons.IH [OF perform_invar [OF Cons.prems(1) r]] perform_capacity [OF r] Cons.prems(2)
    have "run xs (c1\<lparr>width := w\<rparr>) = map_outcome id (\<lambda>s. s\<lparr>width := w\<rparr>) (run xs c1)"
      by (simp add: unit_id)
    with r show ?thesis by (simp add: perform_width [OF Cons.prems] unit_id)
  qed (simp_all add: perform_width [OF Cons.prems])
qed

lemma entries_width: "entries (c\<lparr>width := w\<rparr>) = entries c"
  by (simp add: entries_def chain_def)

text \<open>
  Claim C8. For every capacity the selector returns the 8-bit representation when
  \<open>capacity - 1\<close> is at most 255, the 16-bit one when at most 65535, the 32-bit one when
  at most 4294967295, and fails, with the unsupported-capacity error, exactly when
  \<open>capacity - 1\<close> exceeds 4294967295. The representation chosen is the narrowest that
  holds every slot index, and a typed array of that width stores every slot index
  unchanged. The choice is one of memory layout, not of behaviour: a cache built with
  that capacity, given arrays of any width at least as wide, runs every sequence of
  calls to the same results and the same states but for the width.
\<close>

theorem C8_slot_width:
  "getPointerArray n =
     (if n - 1 \<le> 255 then Inr Uint8Array
      else if n - 1 \<le> 65535 then Inr Uint16Array
      else if n - 1 \<le> 4294967295 then Inr Uint32Array
      else Inl CapacityUnsupported)
   \<and> ((\<exists>e. getPointerArray n = Inl e) \<longleftrightarrow> 4294967295 < n - 1)
   \<and> (getPointerArray n = Inl CapacityUnsupported \<longleftrightarrow> 4294967295 < n - 1)
   \<and> (\<forall>w. getPointerArray n = Inr w \<longrightarrow>
          n \<le> 2 ^ bits w
        \<and> (\<forall>w'. bits w' < bits w \<longrightarrow> 2 ^ bits w' < n)
        \<and> (\<forall>p xs i. int p < n \<longrightarrow> ta_write w xs i p = xs[i := p])
        \<and> (\<forall>w' calls. \<forall>c0 :: 'v cache.
              bits w \<le> bits w' \<and> new_LRUCache (Number (Finite (of_int n))) = Inr c0 \<longrightarrow>
                width c0 = w
              \<and> run calls (c0\<lparr>width := w'\<rparr>) =
                  map_outcome id (\<lambda>s. s\<lparr>width := w'\<rparr>) (run calls c0)
              \<and> (\<forall>c. run calls c0 = Returned () c \<longrightarrow>
                    entries (c\<lparr>width := w'\<rparr>) = entries c)))"
proof (intro conjI allI impI)
  show "getPointerArray n =
     (if n - 1 \<le> 255 then Inr Uint8Array
      else if n - 1 \<le> 65535 then Inr Uint16Array
      else if n - 1 \<le> 4294967295 then Inr Uint32Array
      else Inl CapacityUnsupported)"
    by (rule getPointerArray_thresholds)
  show "(\<exists>e. getPointerArray n = Inl e) \<longleftrightarrow> 4294967295 < n - 1"
    by (simp add: getPointerArray_thresholds)
  show "getPointerArray n = Inl CapacityUnsupported \<longleftrightarrow> 4294967295 < n - 1"
    by (simp add: getPointerArray_thresholds)
next
  fix w assume w: "getPointerArray n = Inr w"
  show fits: "n \<le> 2 ^ bits w" by (rule getPointerArray_fits [OF w])
  { fix w' assume "bits w' < bits w"
    then show "2 ^ bits w' < n" by (rule getPointerArray_narrowest [OF w]) }
  { fix p :: nat and xs i assume "int p < n"
    with fits have "int p < 2 ^ bits w" by linarith
    then show "ta_write w xs i p = xs[i := p]" by (rule ta_write_exact) }
  { fix w' calls and c0 :: "'v cache"
    assume a: "bits w \<le> bits w' \<and> new_LRUCache (Number (Finite (of_int n))) = Inr c0"
    then have new: "new_LRUCache (Number (Finite (of_int n))) = Inr c0" by simp
    have pos: "0 < n"
    proof (rule ccontr)
      assume neg: "\<not> 0 < n"
      have "\<not> (\<exists>m::nat. 0 < m \<and> Number (Finite (of_int n)) = Number (Finite (of_nat m)))"
      proof
        assume "\<exists>m::nat. 0 < m \<and> Number (Finite (of_int n)) = Number (Finite (of_nat m))"
        then obtain m :: nat where m: "0 < m" "(of_int n :: rat) = of_nat m" by auto
        from m(2) have "(of_int n :: rat) = of_int (int m)" by simp
        then have "n = int m" by (simp only: of_int_eq_iff)
        with m(1) neg show False by simp
      qed
      from new_LRUCache_invalid [OF this, where 'a = 'v] new show False by simp
    qed
    define m where "m = nat n"
    from pos have m: "0 < m" "int m = n" by (simp_all add: m_def)
    have "(of_int n :: rat) = of_nat m" unfolding m(2) [symmetric] by simp
    with new have new': "new_LRUCache (Number (Finite (of_nat m))) = Inr c0" by simp
    from w m(2) have w': "getPointerArray (int m) = Inr w" by simp
    from new' have c0: "width c0 = w" "capacity c0 = m"
      unfolding new_LRUCache_valid [OF m(1)] w' by (auto split: if_splits)
    from fits m(2) have "int m \<le> 2 ^ bits w" by simp
    then have "m \<le> 2 ^ bits w"
      by (metis of_nat_le_iff of_nat_numeral of_nat_power)
    also from a have "\<dots> \<le> 2 ^ bits w'" by simp
    finally have cap: "capacity c0 \<le> 2 ^ bits w'" by (simp add: c0(2))
    note inv = new_LRUCache_invar(1) [OF new]
    show "width c0 = w" by (rule c0(1))
    show "run calls (c0\<lparr>width := w'\<rparr>) =
        map_outcome id (\<lambda>s. s\<lparr>width := w'\<rparr>) (run calls c0)"
      by (rule run_width [OF inv cap])
    { fix c assume "run calls c0 = Returned () c"
      show "entries (c\<lparr>width := w'\<rparr>) = entries c" by (rule entries_width) } }
qed

theorem C8_slot_width_witness:
  "getPointerArray 300 = Inr Uint16Array
   \<and> (2::int) ^ bits Uint8Array < 300
   \<and> ta_write Uint16Array [0, 0] 1 299 = [0, 299]
   \<and> getPointerArray 4294967297 = Inl CapacityUnsupported
   \<and> (\<exists>c0 :: nat cache. new_LRUCache (Number (Finite 3)) = Inr c0 \<and> width c0 = Uint8Array
        \<and> run [Set (Str ''one'') 1, Set (Str ''two'') 2] (c0\<lparr>width := Uint32Array\<rparr>) =
            map_outcome id (\<lambda>s. s\<lparr>width := Uint32Array\<rparr>)
              (run [Set (Str ''one'') 1, Set (Str ''two'') 2] c0))"
proof -
  have w: "getPointerArray 300 = Inr Uint16Array"
    by (simp add: getPointerArray_thresholds)
  have "bits Uint8Array < bits Uint16Array" by simp
  with C8_slot_width [of 300, where 'v = nat] w have n: "(2::int) ^ bits Uint8Array < 300"
    by blast
  have "int 299 < 300" by simp
  with C8_slot_width [of 300, where 'v = nat] w
  have "ta_write Uint16Array [0, 0] 1 299 = [0, 0][1 := 299]"
    by blast
  then have t: "ta_write Uint16Array [0, 0] 1 299 = [0, 299]" by simp
  have "(4294967295::int) < 4294967297 - 1" by simp
  with C8_slot_width [of 4294967297, where 'v = nat]
  have e: "getPointerArray 4294967297 = Inl CapacityUnsupported"
    by blast
  have w3: "getPointerArray 3 = Inr Uint8Array" by (simp add: getPointerArray_thresholds)
  have b: "bits Uint8Array \<le> bits Uint32Array" by simp
  obtain c0 :: "nat cache" where c0: "new_LRUCache (Number (Finite (of_int 3))) = Inr c0"
    using new_LRUCache_3 by simp
  from C8_slot_width [of 3, where 'v = nat] w3 b c0
  have "width c0 = Uint8Array
        \<and> run [Set (Str ''one'') 1, Set (Str ''two'') 2] (c0\<lparr>width := Uint32Array\<rparr>) =
            map_outcome id (\<lambda>s. s\<lparr>width := Uint32Array\<rparr>)
              (run [Set (Str ''one'') 1, Set (Str ''two'') 2] c0)"
    by blast
  with c0 have x: "\<exists>c0 :: nat cache. new_LRUCache (Number (Finite 3)) = Inr c0 \<and> width c0 = Uint8Array
        \<and> run [Set (Str ''one'') 1, Set (Str ''two'') 2] (c0\<lparr>width := Uint32Array\<rparr>) =
            map_outcome id (\<lambda>s. s\<lparr>width := Uint32Array\<rparr>)
              (run [Set (Str ''one'') 1, Set (Str ''two'') 2] c0)"
    by auto
  from w n t e x show ?thesis by blast
qed

end
